theory Spec2Isabelle
  imports Complex_Main "HOL-Library.Word"
begin

section \<open>Captured thread: the scratch stack (src/thread/captured-thread.ts)\<close>

text \<open>
  Addresses and register values are JavaScript \<open>bigint\<close>s in the source, so they are
  modelled as \<^typ>\<open>int\<close>: no operation of the code wraps around.
\<close>

definition STACK_ADD :: int where
  "STACK_ADD = - 8192"

text \<open>
  Modelled from the spec: \<open>Native.stackAlign16\<close> belongs to the native binding package
  and is not part of the sources; the specification describes it as \<open>align_down_16\<close>,
  rounding an address down to the next multiple of 16.
\<close>

definition stackAlign16 :: "int \<Rightarrow> int" where
  "stackAlign16 x = x - x mod 16"

definition calcStackBegin :: "int \<Rightarrow> int" where
  "calcStackBegin baseRsp = stackAlign16 (baseRsp + STACK_ADD)"

text \<open>
  The two assignments of \<open>NThread.inject\<close> that fix the scratch stack:
  \<open>stackBegin = captured.calcStackBegin(BigInt(rsp))\<close> and
  \<open>captured.callRsp = stackBegin - 8n\<close>.
\<close>

definition inject_stackBegin :: "int \<Rightarrow> int" where
  "inject_stackBegin rsp = calcStackBegin rsp"

definition inject_callRsp :: "int \<Rightarrow> int" where
  "inject_callRsp rsp = inject_stackBegin rsp - 8"

text \<open>
  Claim C6 (stack safety). For every base RSP, \<open>calcStackBegin\<close> is the address
  \<open>baseRsp - 8192\<close> rounded down to a multiple of 16; the stack begin computed by
  \<open>inject\<close> is 16-aligned and lies at least 8192 bytes below the original RSP, and the
  stored \<open>callRsp = stackBegin - 8\<close> is congruent to 8 modulo 16.
\<close>

theorem calcStackBegin_stack_safety:
  "calcStackBegin baseRsp = stackAlign16 (baseRsp - 8192)
   \<and> inject_stackBegin baseRsp mod 16 = 0
   \<and> inject_stackBegin baseRsp \<le> baseRsp - 8192
   \<and> baseRsp - 8192 - 16 < inject_stackBegin baseRsp
   \<and> inject_callRsp baseRsp = inject_stackBegin baseRsp - 8
   \<and> inject_callRsp baseRsp mod 16 = 8"
proof -
  let ?x = "baseRsp - 8192"
  have sb: "inject_stackBegin baseRsp = ?x - ?x mod 16"
    by (simp add: inject_stackBegin_def calcStackBegin_def stackAlign16_def STACK_ADD_def)
  have m0: "(?x - ?x mod 16) mod 16 = 0"
    by (simp add: minus_mod_eq_mult_div)
  have m8: "(?x - ?x mod 16 - 8) mod 16 = 8"
    by presburger
  have lo: "0 \<le> ?x mod 16" and hi: "?x mod 16 < 16" by simp_all
  show ?thesis
    using sb m0 m8 lo hi
    by (simp add: calcStackBegin_def STACK_ADD_def inject_callRsp_def)
qed

section \<open>Errors (errors.ts) and wait results\<close>

type_synonym byte = "8 word"

datatype WaitReturn = OBJECT_0 | TIMEOUT | FAILED | ABANDONED

text \<open>
  The error classes of the repository that the modelled code raises, as one datatype.
  \<open>RangeError\<close> is JavaScript's own: \<open>BigInt(v)\<close> raises it for a number that is not
  an integer. \<open>NativeError\<close> stands for any exception of the native binding, such as
  reading the context of a thread that is gone.
\<close>

datatype NThreadError =
    NoSleepAddressError
  | NoPushretAddressError
  | InjectTimeoutError WaitReturn
  | CallTooManyArgsError nat
  | CallRipMismatchError int int int
  | CallTimeoutError int WaitReturn
  | CallThreadDiedError int
  | RangeError
  | NativeError

section \<open>Read-only memory registry (src/memory/romem.ts)\<close>

text \<open>
  A region pairs a remote address with the local snapshot buffer. The registry
  \<open>regions\<close> is an array of region objects; a reference to a region is modelled as its
  index in the registry. Each region is taken to own its snapshot buffer.
\<close>

record ReadOnlyMemory =
  remote :: int
  local :: "byte list"

section \<open>The in-thread memset call\<close>

text \<open>
  \<open>proxy.call(crt.memset, addr, value, runLen)\<close> runs \<open>threadCall\<close> on the captured
  thread: it either returns the RAX of the call as an address or raises one of the call
  errors. What the remote thread returns is outside the program, so the outcome of the
  \<open>n\<close>-th in-thread call is a parameter \<open>rets n\<close>. The state \<open>world\<close> holds the
  registry, the remote memory and the log of the memset calls issued so far.
\<close>

datatype call_result = Returned int | Threw NThreadError

record world =
  regions :: "ReadOnlyMemory list"
  mem :: "int \<Rightarrow> byte"
  calls :: "(int \<times> byte \<times> nat) list"

text \<open>
  Modelled from the spec: \<open>ProxyThread.call\<close> and the CRT's \<open>memset\<close> are not among the
  sources. A call is logged, its outcome is \<open>rets n\<close>; under memset semantics a call
  that returns a non-null address has set the \<open>n\<close> bytes from \<open>addr\<close> to the value, and
  a call that returns null or raises has written nothing.
\<close>

definition memset_call ::
  "(nat \<Rightarrow> call_result) \<Rightarrow> world \<Rightarrow> int \<Rightarrow> byte \<Rightarrow> nat \<Rightarrow> call_result \<times> world" where
  "memset_call rets w addr v n =
     (let r = rets (length (calls w));
          w' = w\<lparr>calls := calls w @ [(addr, v, n)]\<rparr>
      in case r of
           Returned a \<Rightarrow>
             if a \<noteq> 0
             then (r, w'\<lparr>mem := (\<lambda>x. if addr \<le> x \<and> x < addr + int n then v else mem w x)\<rparr>)
             else (r, w')
         | Threw e \<Rightarrow> (r, w'))"

section \<open>Memset-decomposed writer (src/nthread.ts)\<close>

text \<open>
  The inner loop \<open>while (j < length && data[j] === value) j++\<close>.
\<close>

function scanRun :: "byte list \<Rightarrow> byte \<Rightarrow> nat \<Rightarrow> nat" where
  "scanRun data v j = (if j < length data \<and> data ! j = v then scanRun data v (j + 1) else j)"
  by pat_completeness auto
termination
  by (relation "measure (\<lambda>(data, v, j). length data - j)") auto

declare scanRun.simps [simp del]

lemma scanRun_ge: "j \<le> scanRun data v j"
proof (induction data v j rule: scanRun.induct)
  case (1 data v j)
  show ?case
  proof (cases "j < length data \<and> data ! j = v")
    case True
    then have "scanRun data v j = scanRun data v (j + 1)"
      by (subst scanRun.simps) simp
    with 1 True show ?thesis by simp
  next
    case False
    then have "scanRun data v j = j"
      by (subst scanRun.simps) auto
    then show ?thesis by simp
  qed
qed

text \<open>
  The loop of the non-overlap path of \<open>writeMemory\<close>, from index \<open>i\<close>: one memset per
  run, \<open>return i\<close> when the call returns the null address.
\<close>

function plainLoop ::
  "(nat \<Rightarrow> call_result) \<Rightarrow> world \<Rightarrow> int \<Rightarrow> byte list \<Rightarrow> nat \<Rightarrow> (NThreadError + nat) \<times> world" where
  "plainLoop rets w destAddr data i =
     (if i < length data then
        (let v = data ! i;
             j = scanRun data v (i + 1);
             runLen = j - i
         in case memset_call rets w (destAddr + int i) v runLen of
              (Threw e, w') \<Rightarrow> (Inl e, w')
            | (Returned a, w') \<Rightarrow>
                if a = 0 then (Inr i, w') else plainLoop rets w' destAddr data j)
      else (Inr (length data), w))"
  by pat_completeness auto
termination
  apply (relation "measure (\<lambda>(rets, w, destAddr, data, i). length data - i)")
   apply simp
  subgoal for rets w destAddr data i
    using scanRun_ge [of "i + 1" data "data ! i"] by simp
  done

declare plainLoop.simps [simp del]


text \<open>
  Reading a buffer out of range gives \<open>undefined\<close> in JavaScript, which is equal to no
  byte; \<open>nth_opt\<close> makes the comparison \<open>source[i] === last[i]\<close> total.
\<close>

definition nth_opt :: "'a list \<Rightarrow> nat \<Rightarrow> 'a option" where
  "nth_opt xs i = (if i < length xs then Some (xs ! i) else None)"

function skipSame :: "byte list \<Rightarrow> byte list \<Rightarrow> nat \<Rightarrow> nat" where
  "skipSame source lastb i =
     (if i < length source \<and> Some (source ! i) = nth_opt lastb i
      then skipSame source lastb (i + 1) else i)"
  by pat_completeness auto
termination
  by (relation "measure (\<lambda>(source, lastb, i). length source - i)") auto

declare skipSame.simps [simp del]

text \<open>
  The loop of \<open>writeMemorySafeBuffer\<close> from index \<open>i\<close>: skip the bytes equal to the
  snapshot, then write one run of equal source bytes.
\<close>

function safeLoop ::
  "(nat \<Rightarrow> call_result) \<Rightarrow> world \<Rightarrow> int \<Rightarrow> byte list \<Rightarrow> byte list \<Rightarrow> nat
     \<Rightarrow> (NThreadError + nat) \<times> world" where
  "safeLoop rets w destAddr source lastb i =
     (if i < length source then
        (let i1 = skipSame source lastb i in
         if i1 \<ge> length source then (Inr (length source), w)
         else
           (let v = source ! i1;
                j = scanRun source v (i1 + 1);
                runLen = j - i1
            in case memset_call rets w (destAddr + int i1) v runLen of
                 (Threw e, w') \<Rightarrow> (Inl e, w')
               | (Returned a, w') \<Rightarrow>
                   if a = 0 then (Inr i1, w') else safeLoop rets w' destAddr source lastb j))
      else (Inr (length source), w))"
  by pat_completeness auto

lemma skipSame_ge: "i \<le> skipSame source lastb i"
proof (induction source lastb i rule: skipSame.induct)
  case (1 source lastb i)
  show ?case
  proof (cases "i < length source \<and> Some (source ! i) = nth_opt lastb i")
    case True
    then have "skipSame source lastb i = skipSame source lastb (i + 1)"
      by (subst skipSame.simps) simp
    with 1 True show ?thesis by simp
  next
    case False
    then have "skipSame source lastb i = i"
      by (subst skipSame.simps) auto
    then show ?thesis by simp
  qed
qed

termination safeLoop
  apply (relation "measure (\<lambda>(rets, w, destAddr, source, lastb, i). length source - i)")
   apply simp
  subgoal for rets w destAddr source lastb i
    using scanRun_ge [of "skipSame source lastb i + 1" source "source ! skipSame source lastb i"]
      skipSame_ge [of i source lastb]
    by simp
  done

declare safeLoop.simps [simp del]

definition writeMemorySafeBuffer ::
  "(nat \<Rightarrow> call_result) \<Rightarrow> world \<Rightarrow> int \<Rightarrow> byte list \<Rightarrow> byte list
     \<Rightarrow> (NThreadError + nat) \<times> world" where
  "writeMemorySafeBuffer rets w dest source lastb =
     (if length source = 0 then (Inr 0, w) else safeLoop rets w dest source lastb 0)"

text \<open>
  \<open>findOverlappingRegion\<close> scans the registry in order and returns (the index of) the
  first region that overlaps the write range.
\<close>

fun findOverlappingRegion :: "ReadOnlyMemory list \<Rightarrow> int \<Rightarrow> nat \<Rightarrow> nat option" where
  "findOverlappingRegion [] destAddr writeLen = None"
| "findOverlappingRegion (r # rs) destAddr writeLen =
     (let writeEnd = destAddr + int writeLen;
          rStart = remote r;
          rEnd = rStart + int (length (local r))
      in if writeEnd > rStart \<and> destAddr < rEnd then Some 0
         else map_option Suc (findOverlappingRegion rs destAddr writeLen))"

text \<open>
  \<open>buf.subarray(b, e)\<close> for \<open>0 \<le> b \<le> e\<close>. The offsets that \<open>getOverlapInfo\<close> converts with
  \<open>Number(...)\<close> are differences that are not negative whenever the region overlaps the
  write range, which is the only way \<open>writeMemory\<close> calls it (lemma
  \<open>getOverlapInfo_facts\<close>); they are naturals here.
\<close>

definition subarray :: "'a list \<Rightarrow> nat \<Rightarrow> nat \<Rightarrow> 'a list" where
  "subarray xs b e = take (e - b) (drop b xs)"

definition getOverlapInfo :: "int \<Rightarrow> nat \<Rightarrow> ReadOnlyMemory \<Rightarrow> nat \<times> nat \<times> byte list" where
  "getOverlapInfo destAddr writeLen romem =
     (let writeEnd = destAddr + int writeLen;
          rStart = remote romem;
          rEnd = rStart + int (length (local romem));
          overlapStart = (if destAddr > rStart then destAddr else rStart);
          overlapEnd = (if writeEnd < rEnd then writeEnd else rEnd);
          overlapLen = nat (overlapEnd - overlapStart);
          writeOffset = nat (overlapStart - destAddr);
          romemOffset = nat (overlapStart - rStart);
          snapshot = subarray (local romem) romemOffset (romemOffset + overlapLen)
      in (writeOffset, overlapLen, snapshot))"

text \<open>
  \<open>source.copy(target, targetStart, sourceStart, sourceEnd)\<close>: the target keeps its
  length, the copied chunk is cut where the target ends.
\<close>

definition buffer_copy :: "byte list \<Rightarrow> byte list \<Rightarrow> nat \<Rightarrow> nat \<Rightarrow> nat \<Rightarrow> byte list" where
  "buffer_copy source target targetStart sourceStart sourceEnd =
     (let chunk = take (length target - targetStart) (subarray source sourceStart sourceEnd)
      in take targetStart target @ chunk @ drop (targetStart + length chunk) target)"

definition updateSnapshot :: "ReadOnlyMemory \<Rightarrow> byte list \<Rightarrow> int \<Rightarrow> ReadOnlyMemory" where
  "updateSnapshot romem source destAddr =
     (let rStart = remote romem;
          writeStart = destAddr;
          writeEnd = writeStart + int (length source);
          rEnd = rStart + int (length (local romem));
          overlapStart = (if writeStart > rStart then writeStart else rStart);
          overlapEnd = (if writeEnd < rEnd then writeEnd else rEnd)
      in if overlapEnd \<le> overlapStart then romem
         else
           (let srcOffset = nat (overlapStart - writeStart);
                dstOffset = nat (overlapStart - rStart);
                len = nat (overlapEnd - overlapStart)
            in romem\<lparr>local := buffer_copy source (local romem) dstOffset srcOffset (srcOffset + len)\<rparr>))"

text \<open>
  \<open>writeMemory\<close>. An exception of an in-thread call leaves the function at once
  (\<open>Inl\<close>); a null return inside one of the three spans only ends that span, and the
  byte counts of the spans are added.
\<close>

function writeMemory ::
  "(nat \<Rightarrow> call_result) \<Rightarrow> world \<Rightarrow> int \<Rightarrow> byte list \<Rightarrow> (NThreadError + nat) \<times> world" where
  "writeMemory rets w destAddr data =
     (if length data = 0 then (Inr 0, w)
      else
        case findOverlappingRegion (regions w) destAddr (length data) of
          Some k \<Rightarrow>
            (case getOverlapInfo destAddr (length data) (regions w ! k) of
               (writeOffset, overlapLen, snapshot) \<Rightarrow>
                 (case (if writeOffset > 0
                        then writeMemory rets w destAddr (subarray data 0 writeOffset)
                        else (Inr 0, w)) of
                    (Inl e, w1) \<Rightarrow> (Inl e, w1)
                  | (Inr n1, w1) \<Rightarrow>
                      (let overlapDest = destAddr + int writeOffset;
                           overlapData = subarray data writeOffset (writeOffset + overlapLen)
                       in case writeMemorySafeBuffer rets w1 overlapDest overlapData snapshot of
                            (Inl e, w2) \<Rightarrow> (Inl e, w2)
                          | (Inr n2, w2) \<Rightarrow>
                              (let w3 = w2\<lparr>regions := (regions w2)
                                          [k := updateSnapshot (regions w2 ! k) overlapData overlapDest]\<rparr>;
                                   afterOffset = writeOffset + overlapLen
                               in if afterOffset < length data
                                  then (case writeMemory rets w3 (destAddr + int afterOffset)
                                               (drop afterOffset data) of
                                          (Inl e, w4) \<Rightarrow> (Inl e, w4)
                                        | (Inr n3, w4) \<Rightarrow> (Inr (n1 + n2 + n3), w4))
                                  else (Inr (n1 + n2), w3)))))
        | None \<Rightarrow> plainLoop rets w destAddr data 0)"
  by pat_completeness auto


definition overlaps :: "ReadOnlyMemory \<Rightarrow> int \<Rightarrow> nat \<Rightarrow> bool" where
  "overlaps r destAddr writeLen =
     (destAddr + int writeLen > remote r \<and> destAddr < remote r + int (length (local r)))"

lemma findOverlappingRegion_Some:
  "findOverlappingRegion rs d n = Some k \<Longrightarrow>
     k < length rs \<and> overlaps (rs ! k) d n \<and> (\<forall>j<k. \<not> overlaps (rs ! j) d n)"
proof (induction rs arbitrary: k)
  case Nil
  then show ?case by simp
next
  case (Cons r rs)
  show ?case
  proof (cases "overlaps r d n")
    case True
    with Cons.prems have "k = 0" by (simp add: overlaps_def Let_def)
    with True show ?thesis by simp
  next
    case False
    with Cons.prems obtain k' where k': "findOverlappingRegion rs d n = Some k'" "k = Suc k'"
      by (auto simp: overlaps_def Let_def)
    from Cons.IH [OF k'(1)] False k'(2) show ?thesis
      by (auto simp: less_Suc_eq_0_disj)
  qed
qed

lemma findOverlappingRegion_None:
  "findOverlappingRegion rs d n = None \<longleftrightarrow> (\<forall>r\<in>set rs. \<not> overlaps r d n)"
  by (induction rs) (auto simp: overlaps_def Let_def)

lemma getOverlapInfo_facts:
  assumes "overlaps r d n" and "0 < n" and "getOverlapInfo d n r = (wo, ol, snap)"
  shows "wo < n" and "0 < wo + ol" and "wo + ol \<le> n" and "length snap = ol"
    and "int wo = max d (remote r) - d"
    and "int (wo + ol) = min (d + int n) (remote r + int (length (local r))) - d"
    and "snap = subarray (local r) (nat (max d (remote r) - remote r)) (nat (max d (remote r) - remote r) + ol)"
  using assms
  by (auto simp: overlaps_def getOverlapInfo_def Let_def subarray_def split: if_splits)

termination writeMemory
proof (relation "measure (\<lambda>(rets, w, destAddr, data). length data)", goal_cases)
  case 1
  show ?case by simp
next
  case (2 rets w destAddr data k wo y ol snap)
  then have "getOverlapInfo destAddr (length data) (regions w ! k) = (wo, ol, snap)"
    by simp
  with 2 findOverlappingRegion_Some [of "regions w" destAddr "length data" k]
  have "wo < length data"
    using getOverlapInfo_facts(1) by blast
  then show ?case by (simp add: subarray_def)
next
  case (3 rets w destAddr data k wo y ol snap xb yb b xba xbb xbc yc ba xbd xbe)
  then have "getOverlapInfo destAddr (length data) (regions w ! k) = (wo, ol, snap)"
    by simp
  with 3 findOverlappingRegion_Some [of "regions w" destAddr "length data" k]
  have "0 < wo + ol"
    using getOverlapInfo_facts(2) by blast
  with 3 show ?case by simp
qed

declare writeMemory.simps [simp del]

subsection \<open>The plain path: one memset per maximal run\<close>

text \<open>
  The run decomposition of the specification, defined on its own: \<open>rle\<close> groups a list
  into its maximal runs of equal elements, \<open>runs\<close> adds the offset of each run.
  \<open>issue\<close> sends one memset per run, in order, and stops at the first null return.
\<close>

fun rle :: "'a list \<Rightarrow> ('a \<times> nat) list" where
  "rle [] = []"
| "rle (x # xs) =
     (case rle xs of
        [] \<Rightarrow> [(x, 1)]
      | (y, n) # rs \<Rightarrow> if x = y then (y, Suc n) # rs else (x, 1) # (y, n) # rs)"

fun with_offsets :: "nat \<Rightarrow> ('a \<times> nat) list \<Rightarrow> (nat \<times> 'a \<times> nat) list" where
  "with_offsets i [] = []"
| "with_offsets i ((v, n) # rs) = (i, v, n) # with_offsets (i + n) rs"

definition runs :: "'a list \<Rightarrow> (nat \<times> 'a \<times> nat) list" where
  "runs xs = with_offsets 0 (rle xs)"

fun issue ::
  "(nat \<Rightarrow> call_result) \<Rightarrow> world \<Rightarrow> int \<Rightarrow> (nat \<times> byte \<times> nat) list \<Rightarrow> nat
     \<Rightarrow> (NThreadError + nat) \<times> world" where
  "issue rets w d [] len = (Inr len, w)"
| "issue rets w d ((off, v, n) # rs) len =
     (case memset_call rets w (d + int off) v n of
        (Threw e, w') \<Rightarrow> (Inl e, w')
      | (Returned a, w') \<Rightarrow> if a = 0 then (Inr off, w') else issue rets w' d rs len)"

lemma rle_Cons_takeWhile:
  "rle (x # xs) = (x, Suc (length (takeWhile (\<lambda>y. y = x) xs))) # rle (dropWhile (\<lambda>y. y = x) xs)"
proof (induction xs arbitrary: x)
  case Nil
  show ?case by simp
next
  case (Cons a xs)
  have ih: "rle (a # xs) =
      (a, Suc (length (takeWhile (\<lambda>y. y = a) xs))) # rle (dropWhile (\<lambda>y. y = a) xs)"
    by (rule Cons.IH)
  have unf: "rle (x # a # xs) =
      (if x = a then (a, Suc (Suc (length (takeWhile (\<lambda>y. y = a) xs)))) # rle (dropWhile (\<lambda>y. y = a) xs)
       else (x, 1) # (a, Suc (length (takeWhile (\<lambda>y. y = a) xs))) # rle (dropWhile (\<lambda>y. y = a) xs))"
    by (subst rle.simps) (simp only: ih list.case prod.case)
  show ?case
  proof (cases "a = x")
    case True
    with unf show ?thesis by (simp del: rle.simps)
  next
    case False
    with unf ih show ?thesis by (simp del: rle.simps)
  qed
qed

lemma scanRun_takeWhile:
  "j \<le> length data \<Longrightarrow> scanRun data v j = j + length (takeWhile (\<lambda>y. y = v) (drop j data))"
proof (induction data v j rule: scanRun.induct)
  case (1 data v j)
  show ?case
  proof (cases "j < length data")
    case True
    then have d: "drop j data = data ! j # drop (Suc j) data"
      by (simp add: Cons_nth_drop_Suc)
    show ?thesis
    proof (cases "data ! j = v")
      case True
      with \<open>j < length data\<close> have "scanRun data v j = scanRun data v (j + 1)"
        by (subst scanRun.simps) simp
      also have "\<dots> = (j + 1) + length (takeWhile (\<lambda>y. y = v) (drop (j + 1) data))"
        using "1.IH" \<open>j < length data\<close> True by simp
      finally show ?thesis using d True by simp
    next
      case False
      then have "scanRun data v j = j" by (subst scanRun.simps) simp
      with d False show ?thesis by simp
    qed
  next
    case False
    then have "scanRun data v j = j" by (subst scanRun.simps) simp
    with False show ?thesis by simp
  qed
qed

lemma plainLoop_issue:
  "i \<le> length data \<Longrightarrow>
     plainLoop rets w d data i = issue rets w d (with_offsets i (rle (drop i data))) (length data)"
proof (induction rets w d data i rule: plainLoop.induct)
  case (1 rets w d data i)
  show ?case
  proof (cases "i < length data")
    case False
    with 1(2) have "i = length data" by simp
    then show ?thesis by (subst plainLoop.simps) simp
  next
    case True
    define v where "v = data ! i"
    define j where "j = scanRun data v (i + 1)"
    define n where "n = Suc (length (takeWhile (\<lambda>y. y = v) (drop (Suc i) data)))"
    from True have d: "drop i data = v # drop (Suc i) data"
      by (simp add: Cons_nth_drop_Suc v_def)
    have j: "j = i + n"
      using True scanRun_takeWhile [of "i + 1" data v] by (simp add: j_def n_def)
    have jle: "j \<le> length data"
    proof -
      have "length (takeWhile (\<lambda>y. y = v) (drop (Suc i) data)) \<le> length (drop (Suc i) data)"
        by (rule length_takeWhile_le)
      with True show ?thesis by (simp add: j n_def)
    qed
    have dj: "drop j data = dropWhile (\<lambda>y. y = v) (drop (Suc i) data)"
    proof -
      have "drop j data = drop (length (takeWhile (\<lambda>y. y = v) (drop (Suc i) data))) (drop (Suc i) data)"
        by (simp add: j n_def add.commute)
      then show ?thesis by (simp add: dropWhile_eq_drop)
    qed
    have r: "rle (drop i data) = (v, n) # rle (drop j data)"
      by (simp only: d rle_Cons_takeWhile n_def dj)
    have sr: "scanRun data (data ! i) (Suc i) = j" and jn: "j - i = n"
      using j by (simp_all add: j_def v_def)
    have step: "plainLoop rets w d data i =
        (case memset_call rets w (d + int i) v n of
           (Threw e, w') \<Rightarrow> (Inl e, w')
         | (Returned a, w') \<Rightarrow> if a = 0 then (Inr i, w') else plainLoop rets w' d data j)"
      using True sr jn
      by (subst plainLoop.simps) (simp add: Let_def v_def split: prod.split call_result.split)
    obtain res w' where m: "memset_call rets w (d + int i) v n = (res, w')"
      by (cases "memset_call rets w (d + int i) v n")
    show ?thesis
    proof (cases res)
      case (Threw e)
      with step m r show ?thesis by simp
    next
      case (Returned a)
      show ?thesis
      proof (cases "a = 0")
        case True
        with step m r Returned show ?thesis by simp
      next
        case False
        have "plainLoop rets w' d data j =
                issue rets w' d (with_offsets j (rle (drop j data))) (length data)"
        proof (rule "1.IH" [OF \<open>i < length data\<close> v_def j_def refl _ _ False jle])
          show "(res, w') = memset_call rets w (d + int i) v (j - i)" using m jn by simp
          show "res = Returned a" by (rule Returned)
        qed
        with step m r Returned False j show ?thesis by simp
      qed
    qed
  qed
qed

definition nonnull :: "call_result \<Rightarrow> bool" where
  "nonnull r = (case r of Returned a \<Rightarrow> a \<noteq> 0 | Threw e \<Rightarrow> False)"

definition memset_args :: "int \<Rightarrow> nat \<times> byte \<times> nat \<Rightarrow> int \<times> byte \<times> nat" where
  "memset_args dest = (\<lambda>(off, v, n). (dest + int off, v, n))"

lemma nonnull_Returned: "nonnull r \<Longrightarrow> \<exists>a. r = Returned a \<and> a \<noteq> 0"
  by (cases r) (simp_all add: nonnull_def)

lemma memset_call_facts:
  assumes "memset_call rets w a v n = (r, w')"
  shows "r = rets (length (calls w))" and "calls w' = calls w @ [(a, v, n)]"
    and "regions w' = regions w"
  using assms by (auto simp: memset_call_def Let_def split: call_result.splits if_splits)

lemma issue_all_ok:
  "\<forall>i<length rs. nonnull (rets (length (calls w) + i)) \<Longrightarrow>
     \<exists>w'. issue rets w d rs len = (Inr len, w') \<and>
          calls w' = calls w @ map (memset_args d) rs \<and> regions w' = regions w"
proof (induction rs arbitrary: w)
  case Nil
  show ?case by simp
next
  case (Cons r rs)
  obtain off v n where r: "r = (off, v, n)" by (cases r)
  obtain res w1 where m: "memset_call rets w (d + int off) v n = (res, w1)"
    by (cases "memset_call rets w (d + int off) v n")
  note f = memset_call_facts [OF m]
  from Cons.prems have "nonnull (rets (length (calls w) + 0))" by blast
  with f(1) obtain a where a: "res = Returned a" "a \<noteq> 0"
    using nonnull_Returned [of res] by auto
  have "\<forall>i<length rs. nonnull (rets (length (calls w1) + i))"
  proof (intro allI impI)
    fix i assume "i < length rs"
    with Cons.prems have "nonnull (rets (length (calls w) + Suc i))" by auto
    then show "nonnull (rets (length (calls w1) + i))" by (simp add: f(2))
  qed
  from Cons.IH [OF this] obtain w' where
    w': "issue rets w1 d rs len = (Inr len, w')"
        "calls w' = calls w1 @ map (memset_args d) rs" "regions w' = regions w1"
    by blast
  have "issue rets w d (r # rs) len = (Inr len, w')"
    using m a w'(1) by (simp add: r)
  moreover have "calls w' = calls w @ map (memset_args d) (r # rs)"
    using w'(2) f(2) by (simp add: r memset_args_def)
  ultimately show ?case using w'(3) f(3) by simp
qed

lemma issue_fail_at:
  "m < length rs \<Longrightarrow> \<forall>i<m. nonnull (rets (length (calls w) + i)) \<Longrightarrow>
   rets (length (calls w) + m) = Returned 0 \<Longrightarrow>
     \<exists>w'. issue rets w d rs len = (Inr (fst (rs ! m)), w') \<and>
          calls w' = calls w @ map (memset_args d) (take (Suc m) rs) \<and> regions w' = regions w"
proof (induction rs arbitrary: w m)
  case Nil
  then show ?case by simp
next
  case (Cons r rs)
  obtain off v n where r: "r = (off, v, n)" by (cases r)
  obtain res w1 where mc: "memset_call rets w (d + int off) v n = (res, w1)"
    by (cases "memset_call rets w (d + int off) v n")
  note f = memset_call_facts [OF mc]
  show ?case
  proof (cases m)
    case 0
    with Cons.prems f(1) have "res = Returned 0" by simp
    with mc have "issue rets w d (r # rs) len = (Inr off, w1)" by (simp add: r)
    with 0 f show ?thesis by (simp add: r memset_args_def)
  next
    case (Suc m')
    from Cons.prems Suc have "nonnull (rets (length (calls w) + 0))" by blast
    with f(1) obtain a where a: "res = Returned a" "a \<noteq> 0"
      using nonnull_Returned [of res] by auto
    have 1: "m' < length rs" using Cons.prems Suc by simp
    have 2: "\<forall>i<m'. nonnull (rets (length (calls w1) + i))"
    proof (intro allI impI)
      fix i assume "i < m'"
      with Cons.prems Suc have "nonnull (rets (length (calls w) + Suc i))" by auto
      then show "nonnull (rets (length (calls w1) + i))" by (simp add: f(2))
    qed
    have 3: "rets (length (calls w1) + m') = Returned 0"
      using Cons.prems Suc by (simp add: f(2))
    from Cons.IH [OF 1 2 3] obtain w' where
      w': "issue rets w1 d rs len = (Inr (fst (rs ! m')), w')"
          "calls w' = calls w1 @ map (memset_args d) (take (Suc m') rs)" "regions w' = regions w1"
      by blast
    have "issue rets w d (r # rs) len = (Inr (fst ((r # rs) ! m)), w')"
      using mc a w'(1) Suc by (simp add: r)
    moreover have "calls w' = calls w @ map (memset_args d) (take (Suc m) (r # rs))"
      using w'(2) f(2) Suc by (simp add: r memset_args_def)
    ultimately show ?thesis using w'(3) f(3) by simp
  qed
qed

lemma writeMemory_plain:
  assumes "findOverlappingRegion (regions w) dest (length data) = None" and "data \<noteq> []"
  shows "writeMemory rets w dest data = issue rets w dest (runs data) (length data)"
proof -
  have "writeMemory rets w dest data = plainLoop rets w dest data 0"
    using assms by (subst writeMemory.simps) simp
  also have "\<dots> = issue rets w dest (with_offsets 0 (rle (drop 0 data))) (length data)"
    by (rule plainLoop_issue) simp
  finally show ?thesis by (simp add: runs_def)
qed

text \<open>
  Claim C2. For a non-empty buffer whose range overlaps no registered region,
  \<open>writeMemory\<close> issues the calls \<open>memset(dest + i, value, runLen)\<close> of the maximal runs of
  the buffer, one per run and in increasing offset order. When every call returns a
  non-null address all runs are issued and the result is the buffer length; when the call
  of run \<open>m\<close> is the first to return null, exactly the calls of runs \<open>0..m\<close> are issued and
  the result is the offset at which run \<open>m\<close> starts.
\<close>

theorem writeMemory_plain_runs:
  assumes "findOverlappingRegion (regions w) dest (length data) = None" and "data \<noteq> []"
  shows "((\<forall>i<length (runs data). nonnull (rets (length (calls w) + i))) \<longrightarrow>
            (\<exists>w'. writeMemory rets w dest data = (Inr (length data), w') \<and>
                  calls w' = calls w @ map (memset_args dest) (runs data)))
       \<and> (\<forall>m<length (runs data).
            (\<forall>i<m. nonnull (rets (length (calls w) + i))) \<and>
            rets (length (calls w) + m) = Returned 0 \<longrightarrow>
            (\<exists>w'. writeMemory rets w dest data = (Inr (fst (runs data ! m)), w') \<and>
                  calls w' = calls w @ map (memset_args dest) (take (Suc m) (runs data))))"
proof (intro conjI impI allI)
  assume "\<forall>i<length (runs data). nonnull (rets (length (calls w) + i))"
  from issue_all_ok [OF this, of dest "length data"]
  show "\<exists>w'. writeMemory rets w dest data = (Inr (length data), w') \<and>
             calls w' = calls w @ map (memset_args dest) (runs data)"
    by (auto simp: writeMemory_plain [OF assms])
next
  fix m
  assume m: "m < length (runs data)"
    and h: "(\<forall>i<m. nonnull (rets (length (calls w) + i))) \<and>
            rets (length (calls w) + m) = Returned 0"
  from issue_fail_at [OF m, of rets w dest "length data"] h
  show "\<exists>w'. writeMemory rets w dest data = (Inr (fst (runs data ! m)), w') \<and>
             calls w' = calls w @ map (memset_args dest) (take (Suc m) (runs data))"
    by (auto simp: writeMemory_plain [OF assms])
qed

theorem writeMemory_plain_runs_witness:
  "findOverlappingRegion (regions \<lparr>regions = [], mem = (\<lambda>_. 0), calls = []\<rparr>) 100
       (length [1, 1, 2 :: byte]) = None
   \<and> [1, 1, 2 :: byte] \<noteq> []
   \<and> (\<exists>w'. writeMemory (\<lambda>_. Returned 1) \<lparr>regions = [], mem = (\<lambda>_. 0), calls = []\<rparr> 100 [1, 1, 2]
              = (Inr 3, w') \<and> calls w' = [(100, 1, 2), (102, 2, 1)])
   \<and> (\<exists>w'. writeMemory (\<lambda>n. if n = 1 then Returned 0 else Returned 1)
                \<lparr>regions = [], mem = (\<lambda>_. 0), calls = []\<rparr> 100 [1, 1, 2]
              = (Inr 2, w') \<and> calls w' = [(100, 1, 2), (102, 2, 1)])"
proof -
  let ?w = "\<lparr>regions = [], mem = (\<lambda>_. 0 :: byte), calls = []\<rparr>"
  have r: "runs [1, 1, 2 :: byte] = [(0, 1, 2), (2, 2, 1)]"
    by (simp add: runs_def)
  have a: "findOverlappingRegion (regions ?w) 100 (length [1, 1, 2 :: byte]) = None" by simp
  have b: "[1, 1, 2 :: byte] \<noteq> []" by simp
  have c: "\<exists>w'. writeMemory (\<lambda>_. Returned 1) ?w 100 [1, 1, 2] = (Inr 3, w')
                \<and> calls w' = [(100, 1, 2), (102, 2, 1)]"
    using writeMemory_plain_runs [OF a b, of "\<lambda>_. Returned 1"]
    by (simp add: r nonnull_def memset_args_def eval_nat_numeral)
  have d: "\<exists>w'. writeMemory (\<lambda>n. if n = 1 then Returned 0 else Returned 1) ?w 100 [1, 1, 2]
                  = (Inr 2, w') \<and> calls w' = [(100, 1, 2), (102, 2, 1)]"
    using writeMemory_plain_runs [OF a b, of "\<lambda>n. if n = 1 then Returned 0 else Returned 1",
        THEN conjunct2, rule_format, of 1]
    by (simp add: r nonnull_def memset_args_def eval_nat_numeral)
  from a b c d show ?thesis by blast
qed

subsection \<open>Address views of regions and buffers\<close>

definition inside :: "ReadOnlyMemory \<Rightarrow> int \<Rightarrow> bool" where
  "inside r a = (remote r \<le> a \<and> a < remote r + int (length (local r)))"

definition snap_at :: "ReadOnlyMemory \<Rightarrow> int \<Rightarrow> byte" where
  "snap_at r a = local r ! nat (a - remote r)"

definition owner :: "ReadOnlyMemory list \<Rightarrow> int \<Rightarrow> nat option" where
  "owner rs a = findOverlappingRegion rs a 1"

definition geom :: "ReadOnlyMemory list \<Rightarrow> (int \<times> nat) list" where
  "geom rs = map (\<lambda>r. (remote r, length (local r))) rs"

lemma overlaps_one: "overlaps r a 1 = inside r a" "overlaps r a (Suc 0) = inside r a"
  by (auto simp: overlaps_def inside_def)

lemma findOverlappingRegion_geom:
  "geom rs = geom rs' \<Longrightarrow> findOverlappingRegion rs d n = findOverlappingRegion rs' d n"
proof (induction rs arbitrary: rs')
  case Nil
  then show ?case by (simp add: geom_def)
next
  case (Cons r rs)
  then obtain r' rs'' where rs': "rs' = r' # rs''" by (cases rs') (auto simp: geom_def)
  with Cons.prems have "remote r = remote r'" "length (local r) = length (local r')"
    "geom rs = geom rs''" by (simp_all add: geom_def)
  with Cons.IH [of rs''] show ?case by (simp add: rs' Let_def)
qed

lemma geom_nth:
  "geom rs = geom rs' \<Longrightarrow> k < length rs \<Longrightarrow>
     remote (rs' ! k) = remote (rs ! k) \<and> length (local (rs' ! k)) = length (local (rs ! k))"
proof -
  assume g: "geom rs = geom rs'" and k: "k < length rs"
  from g have l: "length rs = length rs'" by (metis geom_def length_map)
  from g have "geom rs ! k = geom rs' ! k" by simp
  with k l show ?thesis by (simp add: geom_def)
qed

lemma geom_length: "geom rs = geom rs' \<Longrightarrow> length rs' = length rs"
  by (metis geom_def length_map)

lemma geom_inside: "geom rs = geom rs' \<Longrightarrow> k < length rs \<Longrightarrow> inside (rs' ! k) a = inside (rs ! k) a"
  using geom_nth [of rs rs' k] by (simp add: inside_def)

lemma owner_geom: "geom rs = geom rs' \<Longrightarrow> owner rs' a = owner rs a"
  using findOverlappingRegion_geom [of rs rs' a 1] by (simp add: owner_def)

lemma owner_Some:
  "owner rs a = Some k \<Longrightarrow> k < length rs \<and> inside (rs ! k) a \<and> (\<forall>j<k. \<not> inside (rs ! j) a)"
  using findOverlappingRegion_Some [of rs a 1 k] by (simp add: owner_def overlaps_one)

lemma owner_None: "owner rs a = None \<longleftrightarrow> (\<forall>r\<in>set rs. \<not> inside r a)"
  by (simp add: owner_def findOverlappingRegion_None overlaps_one)

lemma first_index_unique:
  assumes "k < length rs" "P (rs ! k)" "\<forall>j<k. \<not> P (rs ! j)"
    and "k' < length rs" "P (rs ! k')" "\<forall>j<k'. \<not> P (rs ! j)"
  shows "k = k'"
  using assms by (meson linorder_neqE_nat)

lemma owner_eqI:
  assumes "k < length rs" "inside (rs ! k) a" "\<forall>j<k. \<not> inside (rs ! j) a"
  shows "owner rs a = Some k"
proof (cases "owner rs a")
  case None
  with assms(1,2) show ?thesis by (auto simp: owner_None)
next
  case (Some k')
  from owner_Some [OF Some] assms have "k = k'"
    by (meson linorder_neqE_nat)
  with Some show ?thesis by simp
qed

lemma inside_overlaps:
  "inside r a \<Longrightarrow> d \<le> a \<Longrightarrow> a < d + int n \<Longrightarrow> overlaps r d n"
  by (auto simp: inside_def overlaps_def)

text \<open>An address of the overlap of the write range with the region found is owned by it.\<close>

lemma owner_of_found:
  assumes f: "findOverlappingRegion rs d n = Some k"
    and a: "d \<le> a" "a < d + int n" "inside (rs ! k) a"
  shows "owner rs a = Some k"
proof (rule owner_eqI)
  from findOverlappingRegion_Some [OF f]
  have k: "k < length rs" and nov: "\<forall>j<k. \<not> overlaps (rs ! j) d n" by simp_all
  show "k < length rs" by (rule k)
  show "inside (rs ! k) a" by (rule a(3))
  show "\<forall>j<k. \<not> inside (rs ! j) a"
    using nov inside_overlaps [OF _ a(1,2)] by blast
qed

lemma owner_not_found:
  assumes f: "findOverlappingRegion rs d n = None" and a: "d \<le> a" "a < d + int n"
  shows "owner rs a = None"
proof -
  from f have "\<forall>r\<in>set rs. \<not> overlaps r d n" by (simp add: findOverlappingRegion_None)
  with inside_overlaps [OF _ a] show ?thesis by (auto simp: owner_None)
qed

subsection \<open>updateSnapshot and getOverlapInfo, by address\<close>

lemma buffer_copy_length: "length (buffer_copy src tgt ts ss se) = length tgt"
  by (simp add: buffer_copy_def Let_def subarray_def min_def)

lemma buffer_copy_nth:
  assumes "i < length tgt" "ts + (se - ss) \<le> length tgt" "se \<le> length src" "ss \<le> se"
  shows "buffer_copy src tgt ts ss se ! i =
           (if ts \<le> i \<and> i < ts + (se - ss) then src ! (ss + (i - ts)) else tgt ! i)"
proof -
  let ?chunk = "take (length tgt - ts) (subarray src ss se)"
  have lc: "length ?chunk = se - ss" using assms by (simp add: subarray_def)
  have bc: "buffer_copy src tgt ts ss se = take ts tgt @ ?chunk @ drop (ts + (se - ss)) tgt"
    using lc by (simp add: buffer_copy_def Let_def)
  have lt: "length (take ts tgt) = ts" using assms by simp
  consider "i < ts" | "ts \<le> i" "i < ts + (se - ss)" | "ts + (se - ss) \<le> i" by linarith
  then show ?thesis
  proof cases
    case 1
    then have "buffer_copy src tgt ts ss se ! i = tgt ! i"
      using assms by (simp add: bc nth_append)
    moreover have "\<not> (ts \<le> i \<and> i < ts + (se - ss))" using 1 by simp
    ultimately show ?thesis by (simp only: if_False simp_thms)
  next
    case 2
    then have k: "i - ts < se - ss" by linarith
    have "buffer_copy src tgt ts ss se ! i = (?chunk @ drop (ts + (se - ss)) tgt) ! (i - ts)"
      using 2 lt by (simp add: bc nth_append)
    also have "\<dots> = ?chunk ! (i - ts)"
      using k lc by (simp only: nth_append if_True)
    also have "\<dots> = subarray src ss se ! (i - ts)"
      using k assms by simp
    also have "\<dots> = src ! (ss + (i - ts))"
      using k assms by (simp add: subarray_def)
    finally have "buffer_copy src tgt ts ss se ! i = src ! (ss + (i - ts))" .
    moreover have "ts \<le> i \<and> i < ts + (se - ss)" using 2 by simp
    ultimately show ?thesis by (simp only: if_True simp_thms)
  next
    case 3
    then have k: "\<not> i - ts < se - ss" "\<not> i < ts" by linarith+
    have "buffer_copy src tgt ts ss se ! i = (?chunk @ drop (ts + (se - ss)) tgt) ! (i - ts)"
      using k lt by (simp add: bc nth_append)
    also have "\<dots> = drop (ts + (se - ss)) tgt ! (i - ts - (se - ss))"
      using k lc by (simp only: nth_append if_False)
    also have "\<dots> = tgt ! i" using 3 assms by simp
    finally have "buffer_copy src tgt ts ss se ! i = tgt ! i" .
    moreover have "\<not> (ts \<le> i \<and> i < ts + (se - ss))" using 3 by simp
    ultimately show ?thesis by (simp only: if_False simp_thms)
  qed
qed

lemma updateSnapshot_remote [simp]: "remote (updateSnapshot r src dst) = remote r"
  by (simp add: updateSnapshot_def Let_def)

lemma updateSnapshot_length [simp]:
  "length (local (updateSnapshot r src dst)) = length (local r)"
  by (simp add: updateSnapshot_def Let_def buffer_copy_length)

lemma updateSnapshot_inside [simp]: "inside (updateSnapshot r src dst) a = inside r a"
  by (simp add: inside_def)

lemma updateSnapshot_snap_at:
  assumes "inside r a"
  shows "snap_at (updateSnapshot r src dst) a =
           (if dst \<le> a \<and> a < dst + int (length src) then src ! nat (a - dst) else snap_at r a)"
proof -
  define rS where "rS = remote r"
  define rE where "rE = remote r + int (length (local r))"
  define wE where "wE = dst + int (length src)"
  define oS where "oS = (if dst > rS then dst else rS)"
  define oE where "oE = (if wE < rE then wE else rE)"
  define so where "so = nat (oS - dst)"
  define dof where "dof = nat (oS - rS)"
  define len where "len = nat (oE - oS)"
  have unf: "updateSnapshot r src dst =
      (if oE \<le> oS then r else r\<lparr>local := buffer_copy src (local r) dof so (so + len)\<rparr>)"
    by (simp add: updateSnapshot_def Let_def rS_def rE_def wE_def oS_def oE_def so_def dof_def len_def)
  from assms have a: "rS \<le> a" "a < rE" by (simp_all add: inside_def rS_def rE_def)
  have rE: "rE = rS + int (length (local r))" by (simp add: rE_def rS_def)
  show ?thesis
  proof (cases "oE \<le> oS")
    case True
    then have "updateSnapshot r src dst = r" by (simp add: unf)
    moreover from True a have "\<not> (dst \<le> a \<and> a < wE)"
      by (auto simp: oS_def oE_def split: if_splits)
    ultimately show ?thesis by (auto simp: wE_def)
  next
    case False
    then have u: "local (updateSnapshot r src dst) = buffer_copy src (local r) dof so (so + len)"
      by (simp add: unf)
    have i: "nat (a - rS) < length (local r)" using a rE by simp
    have b1: "dof + (so + len - so) \<le> length (local r)"
      using False rE by (auto simp: dof_def len_def oS_def oE_def split: if_splits)
    have b2: "so + len \<le> length src"
      using False rE by (auto simp: so_def len_def oS_def oE_def wE_def split: if_splits)
    have "snap_at (updateSnapshot r src dst) a = buffer_copy src (local r) dof so (so + len) ! nat (a - rS)"
      by (simp add: snap_at_def u rS_def)
    also have "\<dots> = (if dof \<le> nat (a - rS) \<and> nat (a - rS) < dof + (so + len - so)
                      then src ! (so + (nat (a - rS) - dof)) else local r ! nat (a - rS))"
      by (rule buffer_copy_nth [OF i b1 b2]) simp
    also have "\<dots> = (if dst \<le> a \<and> a < wE then src ! nat (a - dst) else snap_at r a)"
    proof (cases "dst \<le> a \<and> a < wE")
      case True
      with a False rE have c: "dof \<le> nat (a - rS)" "nat (a - rS) < dof + (so + len - so)"
        by (auto simp: dof_def so_def len_def oS_def oE_def split: if_splits)
      from True a False rE have "so + (nat (a - rS) - dof) = nat (a - dst)"
        by (auto simp: dof_def so_def len_def oS_def oE_def split: if_splits)
      moreover have "dof \<le> nat (a - rS) \<and> nat (a - rS) < dof + (so + len - so)"
        using c by simp
      ultimately show ?thesis using True by (simp only: if_True simp_thms)
    next
      case F: False
      with a False rE have "\<not> (dof \<le> nat (a - rS) \<and> nat (a - rS) < dof + (so + len - so))"
        by (auto simp: dof_def so_def len_def oS_def oE_def wE_def split: if_splits)
      with F show ?thesis by (simp only: if_False simp_thms snap_at_def rS_def)
    qed
    finally show ?thesis by (simp add: wE_def)
  qed
qed

lemma getOverlapInfo_snap:
  assumes "overlaps r d n" and "0 < n" and "getOverlapInfo d n r = (wo, ol, snap)" and "t < ol"
  shows "inside r (d + int wo + int t)" and "snap ! t = snap_at r (d + int wo + int t)"
    and "d + int wo + int t < d + int n"
proof -
  from assms show "inside r (d + int wo + int t)"
    by (auto simp: overlaps_def getOverlapInfo_def Let_def inside_def split: if_splits)
  from assms show "d + int wo + int t < d + int n"
    by (auto simp: overlaps_def getOverlapInfo_def Let_def split: if_splits)
  let ?ro = "nat (max d (remote r) - remote r)"
  from assms have s: "snap = subarray (local r) ?ro (?ro + ol)"
    using getOverlapInfo_facts(7) by blast
  from assms have b: "?ro + ol \<le> length (local r)"
    by (auto simp: overlaps_def getOverlapInfo_def Let_def split: if_splits)
  from assms have e: "nat (d + int wo + int t - remote r) = ?ro + t"
    by (auto simp: overlaps_def getOverlapInfo_def Let_def split: if_splits)
  show "snap ! t = snap_at r (d + int wo + int t)"
    using b \<open>t < ol\<close> by (simp add: s subarray_def snap_at_def e)
qed

lemma getOverlapInfo_range:
  assumes "overlaps r d n" and "0 < n" and "getOverlapInfo d n r = (wo, ol, snap)"
    and "d \<le> a" "a < d + int n"
  shows "inside r a \<longleftrightarrow> d + int wo \<le> a \<and> a < d + int wo + int ol"
  using assms
  by (auto simp: overlaps_def getOverlapInfo_def Let_def inside_def split: if_splits)

subsection \<open>One iteration of the two write loops\<close>

lemma memset_call_mem:
  assumes "memset_call rets w a v n = (r, w')"
  shows "mem w' x = (if nonnull r \<and> a \<le> x \<and> x < a + int n then v else mem w x)"
proof (cases "rets (length (calls w))")
  case (Threw e)
  with assms have "r = Threw e" and "mem w' = mem w"
    by (auto simp: memset_call_def Let_def)
  then show ?thesis by (simp add: nonnull_def)
next
  case (Returned b)
  show ?thesis
  proof (cases "b = 0")
    case True
    with Returned assms have "r = Returned 0" and "mem w' = mem w"
      by (auto simp: memset_call_def Let_def)
    then show ?thesis by (simp add: nonnull_def)
  next
    case False
    with Returned assms have "r = Returned b"
      and "mem w' = (\<lambda>x. if a \<le> x \<and> x < a + int n then v else mem w x)"
      by (auto simp: memset_call_def Let_def)
    with False show ?thesis by (simp add: nonnull_def)
  qed
qed

lemma scanRun_run:
  assumes "i < length data" and "j = scanRun data (data ! i) (Suc i)"
  shows "i < j" and "j \<le> length data" and "\<forall>t. i \<le> t \<and> t < j \<longrightarrow> data ! t = data ! i"
proof -
  let ?tw = "takeWhile (\<lambda>y. y = data ! i) (drop (Suc i) data)"
  have j: "j = Suc i + length ?tw"
    using assms scanRun_takeWhile [of "Suc i" data "data ! i"] by simp
  then show "i < j" by simp
  have l: "length ?tw \<le> length (drop (Suc i) data)" by (rule length_takeWhile_le)
  with assms(1) j show "j \<le> length data" by simp
  show "\<forall>t. i \<le> t \<and> t < j \<longrightarrow> data ! t = data ! i"
  proof (intro allI impI)
    fix t assume t: "i \<le> t \<and> t < j"
    show "data ! t = data ! i"
    proof (cases "t = i")
      case True
      then show ?thesis by simp
    next
      case False
      with t j have s: "t - Suc i < length ?tw" by arith
      then have "?tw ! (t - Suc i) \<in> set ?tw" by simp
      then have "?tw ! (t - Suc i) = data ! i" by (meson set_takeWhileD)
      moreover have "?tw ! (t - Suc i) = drop (Suc i) data ! (t - Suc i)"
        using s by (rule takeWhile_nth)
      moreover have "drop (Suc i) data ! (t - Suc i) = data ! t"
        using s l t False assms(1) by simp
      ultimately show ?thesis by simp
    qed
  qed
qed

lemma skipSame_facts:
  assumes "i \<le> length source"
  shows "skipSame source lastb i \<le> length source"
    and "\<forall>t. i \<le> t \<and> t < skipSame source lastb i \<longrightarrow> Some (source ! t) = nth_opt lastb t"
    and "skipSame source lastb i < length source \<longrightarrow>
           Some (source ! skipSame source lastb i) \<noteq> nth_opt lastb (skipSame source lastb i)"
  using assms
proof (induction source lastb i rule: skipSame.induct)
  case (1 source lastb i)
  {
    case 1
    show ?case
    proof (cases "i < length source \<and> Some (source ! i) = nth_opt lastb i")
      case True
      then have "skipSame source lastb i = skipSame source lastb (i + 1)"
        by (subst skipSame.simps) simp
      with "1.IH"(1) True show ?thesis by simp
    next
      case False
      then have "skipSame source lastb i = i" by (subst skipSame.simps) auto
      with 1 show ?thesis by simp
    qed
  next
    case 2
    show ?case
    proof (cases "i < length source \<and> Some (source ! i) = nth_opt lastb i")
      case True
      then have e: "skipSame source lastb i = skipSame source lastb (i + 1)"
        by (subst skipSame.simps) simp
      from "1.IH"(2) True
      have "\<forall>t. i + 1 \<le> t \<and> t < skipSame source lastb (i + 1) \<longrightarrow> Some (source ! t) = nth_opt lastb t"
        by simp
      have "Some (source ! t) = nth_opt lastb t" if "i \<le> t \<and> t < skipSame source lastb i" for t
      proof (cases "t = i")
        case True
        with \<open>i < length source \<and> Some (source ! i) = nth_opt lastb i\<close> show ?thesis by simp
      next
        case False
        with that have "i + 1 \<le> t \<and> t < skipSame source lastb (i + 1)" using e by simp
        with \<open>\<forall>t. i + 1 \<le> t \<and> t < skipSame source lastb (i + 1) \<longrightarrow> Some (source ! t) = nth_opt lastb t\<close>
        show ?thesis by blast
      qed
      then show ?thesis by blast
    next
      case False
      then have "skipSame source lastb i = i" by (subst skipSame.simps) auto
      then show ?thesis by auto
    qed
  next
    case 3
    show ?case
    proof (cases "i < length source \<and> Some (source ! i) = nth_opt lastb i")
      case True
      then have e: "skipSame source lastb i = skipSame source lastb (i + 1)"
        by (subst skipSame.simps) simp
      from True have "i + 1 \<le> length source" by simp
      from "1.IH"(3) [OF True this] show ?thesis unfolding e .
    next
      case False
      then have "skipSame source lastb i = i" by (subst skipSame.simps) auto
      with False show ?thesis by auto
    qed
  }
qed

lemma skipSame_all:
  assumes "i \<le> length source"
    and "\<forall>t. i \<le> t \<and> t < length source \<longrightarrow> Some (source ! t) = nth_opt lastb t"
  shows "skipSame source lastb i = length source"
proof -
  let ?s = "skipSame source lastb i"
  have "?s \<le> length source" by (rule skipSame_facts(1) [OF assms(1)])
  moreover have "\<not> ?s < length source"
  proof
    assume l: "?s < length source"
    with skipSame_facts(3) [OF assms(1), of lastb]
    have "Some (source ! ?s) \<noteq> nth_opt lastb ?s" by simp
    moreover have "i \<le> ?s" by (rule skipSame_ge)
    ultimately show False using assms(2) l by simp
  qed
  ultimately show ?thesis by simp
qed

lemma plainLoop_rule:
  assumes i: "i \<le> length data"
    and fin: "\<And>w. P (length data) w (Inr (length data), w)"
    and throw: "\<And>i w j e w1. i < length data \<Longrightarrow> j = scanRun data (data ! i) (Suc i) \<Longrightarrow>
        memset_call rets w (d + int i) (data ! i) (j - i) = (Threw e, w1) \<Longrightarrow> P i w (Inl e, w1)"
    and null: "\<And>i w j w1. i < length data \<Longrightarrow> j = scanRun data (data ! i) (Suc i) \<Longrightarrow>
        memset_call rets w (d + int i) (data ! i) (j - i) = (Returned 0, w1) \<Longrightarrow> P i w (Inr i, w1)"
    and ok: "\<And>i w j a w1. i < length data \<Longrightarrow> j = scanRun data (data ! i) (Suc i) \<Longrightarrow>
        memset_call rets w (d + int i) (data ! i) (j - i) = (Returned a, w1) \<Longrightarrow> a \<noteq> 0 \<Longrightarrow>
        P j w1 (plainLoop rets w1 d data j) \<Longrightarrow> P i w (plainLoop rets w1 d data j)"
  shows "P i w (plainLoop rets w d data i)"
  using i
proof (induction "length data - i" arbitrary: i w rule: less_induct)
  case less
  show ?case
  proof (cases "i < length data")
    case False
    with less.prems have "i = length data" by simp
    moreover have "plainLoop rets w d data (length data) = (Inr (length data), w)"
      by (subst plainLoop.simps) simp
    ultimately show ?thesis using fin by simp
  next
    case True
    define j where "j = scanRun data (data ! i) (Suc i)"
    note r = scanRun_run [OF True j_def]
    have step: "plainLoop rets w d data i =
        (case memset_call rets w (d + int i) (data ! i) (j - i) of
           (Threw e, w') \<Rightarrow> (Inl e, w')
         | (Returned a, w') \<Rightarrow> if a = 0 then (Inr i, w') else plainLoop rets w' d data j)"
      using True
      by (subst plainLoop.simps) (simp add: Let_def j_def split: prod.split call_result.split)
    obtain res w1 where m: "memset_call rets w (d + int i) (data ! i) (j - i) = (res, w1)"
      by (cases "memset_call rets w (d + int i) (data ! i) (j - i)")
    show ?thesis
    proof (cases res)
      case (Threw e)
      with step m throw [OF True j_def, of w e w1] show ?thesis by simp
    next
      case (Returned a)
      show ?thesis
      proof (cases "a = 0")
        case True
        with step m Returned null [OF \<open>i < length data\<close> j_def, of w w1] show ?thesis by simp
      next
        case False
        have "P j w1 (plainLoop rets w1 d data j)"
          using less.hyps [of j w1] r True by simp
        with step m Returned False ok [OF True j_def, of w a w1] show ?thesis by simp
      qed
    qed
  qed
qed

lemma safeLoop_rule:
  assumes i: "i \<le> length source"
    and fin: "\<And>i w. i \<le> length source \<Longrightarrow> skipSame source lastb i = length source \<Longrightarrow>
        P i w (Inr (length source), w)"
    and throw: "\<And>i w i1 j e w1. i \<le> i1 \<Longrightarrow> i1 = skipSame source lastb i \<Longrightarrow> i1 < length source \<Longrightarrow>
        j = scanRun source (source ! i1) (Suc i1) \<Longrightarrow>
        memset_call rets w (d + int i1) (source ! i1) (j - i1) = (Threw e, w1) \<Longrightarrow> P i w (Inl e, w1)"
    and null: "\<And>i w i1 j w1. i \<le> i1 \<Longrightarrow> i1 = skipSame source lastb i \<Longrightarrow> i1 < length source \<Longrightarrow>
        j = scanRun source (source ! i1) (Suc i1) \<Longrightarrow>
        memset_call rets w (d + int i1) (source ! i1) (j - i1) = (Returned 0, w1) \<Longrightarrow> P i w (Inr i1, w1)"
    and ok: "\<And>i w i1 j a w1. i \<le> i1 \<Longrightarrow> i1 = skipSame source lastb i \<Longrightarrow> i1 < length source \<Longrightarrow>
        j = scanRun source (source ! i1) (Suc i1) \<Longrightarrow>
        memset_call rets w (d + int i1) (source ! i1) (j - i1) = (Returned a, w1) \<Longrightarrow> a \<noteq> 0 \<Longrightarrow>
        P j w1 (safeLoop rets w1 d source lastb j) \<Longrightarrow> P i w (safeLoop rets w1 d source lastb j)"
  shows "P i w (safeLoop rets w d source lastb i)"
  using i
proof (induction "length source - i" arbitrary: i w rule: less_induct)
  case less
  define i1 where "i1 = skipSame source lastb i"
  have ii1: "i \<le> i1" unfolding i1_def by (rule skipSame_ge)
  have i1le: "i1 \<le> length source" unfolding i1_def by (rule skipSame_facts(1) [OF less.prems])
  show ?case
  proof (cases "i1 < length source")
    case False
    with i1le have e: "i1 = length source" by simp
    have "safeLoop rets w d source lastb i = (Inr (length source), w)"
      using e by (subst safeLoop.simps) (simp add: Let_def i1_def)
    with fin [OF less.prems] e show ?thesis by (simp add: i1_def)
  next
    case True
    with ii1 have il: "i < length source" by simp
    define j where "j = scanRun source (source ! i1) (Suc i1)"
    note r = scanRun_run [OF True j_def]
    have step: "safeLoop rets w d source lastb i =
        (case memset_call rets w (d + int i1) (source ! i1) (j - i1) of
           (Threw e, w') \<Rightarrow> (Inl e, w')
         | (Returned a, w') \<Rightarrow> if a = 0 then (Inr i1, w') else safeLoop rets w' d source lastb j)"
      using True il
      by (subst safeLoop.simps) (simp add: Let_def j_def i1_def split: prod.split call_result.split)
    obtain res w1 where m: "memset_call rets w (d + int i1) (source ! i1) (j - i1) = (res, w1)"
      by (cases "memset_call rets w (d + int i1) (source ! i1) (j - i1)")
    show ?thesis
    proof (cases res)
      case (Threw e)
      with step m throw [OF ii1 i1_def True j_def, of w e w1] show ?thesis by simp
    next
      case (Returned a)
      show ?thesis
      proof (cases "a = 0")
        case True
        with step m Returned null [OF ii1 i1_def \<open>i1 < length source\<close> j_def, of w w1]
        show ?thesis by simp
      next
        case False
        have "P j w1 (safeLoop rets w1 d source lastb j)"
          using less.hyps [of j w1] r ii1 True by simp
        with step m Returned False ok [OF ii1 i1_def True j_def, of w a w1] show ?thesis by simp
      qed
    qed
  qed
qed

subsection \<open>Effects of the two write loops\<close>

lemma memset_call_frame:
  assumes m: "memset_call rets w (d + int i) v (j - i) = (r, w1)" and ij: "i < j"
  shows "regions w1 = regions w" and "length (calls w1) = Suc (length (calls w))"
    and "calls w1 = calls w @ [(d + int i, v, j - i)]"
    and "r = rets (length (calls w))"
    and "\<And>x. \<not> (d + int i \<le> x \<and> x < d + int j) \<Longrightarrow> mem w1 x = mem w x"
    and "\<And>x. nonnull r \<Longrightarrow> d + int i \<le> x \<Longrightarrow> x < d + int j \<Longrightarrow> mem w1 x = v"
    and "\<not> nonnull r \<Longrightarrow> mem w1 = mem w"
proof -
  note f = memset_call_facts [OF m]
  have e: "d + int i + int (j - i) = d + int j" using ij by simp
  show "regions w1 = regions w" by (rule f(3))
  show "length (calls w1) = Suc (length (calls w))" by (simp add: f(2))
  show "calls w1 = calls w @ [(d + int i, v, j - i)]" by (rule f(2))
  show "r = rets (length (calls w))" by (rule f(1))
  show "\<And>x. \<not> (d + int i \<le> x \<and> x < d + int j) \<Longrightarrow> mem w1 x = mem w x"
    using memset_call_mem [OF m] e by auto
  show "\<And>x. nonnull r \<Longrightarrow> d + int i \<le> x \<Longrightarrow> x < d + int j \<Longrightarrow> mem w1 x = v"
    using memset_call_mem [OF m] e by auto
  show "\<not> nonnull r \<Longrightarrow> mem w1 = mem w"
    using memset_call_mem [OF m] by auto
qed

lemma plainLoop_frame_aux:
  assumes "i \<le> length data"
  shows "regions (snd (plainLoop rets w d data i)) = regions w \<and>
         length (calls w) \<le> length (calls (snd (plainLoop rets w d data i))) \<and>
         (\<forall>x. \<not> (d + int i \<le> x \<and> x < d + int (length data)) \<longrightarrow>
              mem (snd (plainLoop rets w d data i)) x = mem w x)"
proof (rule plainLoop_rule [OF assms, where
      P = "\<lambda>i w rw. regions (snd rw) = regions w \<and> length (calls w) \<le> length (calls (snd rw)) \<and>
         (\<forall>x. \<not> (d + int i \<le> x \<and> x < d + int (length data)) \<longrightarrow> mem (snd rw) x = mem w x)"],
    goal_cases)
  case (1 w)
  show ?case by simp
next
  case (2 i w j e w1)
  note r = scanRun_run [OF 2(1,2)]
  note f = memset_call_frame [OF 2(3) r(1)]
  show ?case using f(1,2,5) r(2) by auto
next
  case (3 i w j w1)
  note r = scanRun_run [OF 3(1,2)]
  note f = memset_call_frame [OF 3(3) r(1)]
  show ?case using f(1,2,5) r(2) by auto
next
  case (4 i w j a w1)
  note r = scanRun_run [OF 4(1,2)]
  note f = memset_call_frame [OF 4(3) r(1)]
  show ?case using f(1,2,5) r(1,2) 4(5) by auto
qed

lemma plainLoop_frame:
  assumes "i \<le> length data" and "plainLoop rets w d data i = (res, w')"
  shows "regions w' = regions w" and "length (calls w) \<le> length (calls w')"
    and "\<And>x. \<not> (d + int i \<le> x \<and> x < d + int (length data)) \<Longrightarrow> mem w' x = mem w x"
  using plainLoop_frame_aux [OF assms(1), of rets w d] assms(2) by simp_all

lemma plainLoop_success_aux:
  assumes "i \<le> length data"
  shows "\<forall>r. fst (plainLoop rets w d data i) = Inr r \<and>
           (\<forall>q. length (calls w) \<le> q \<and> q < length (calls (snd (plainLoop rets w d data i)))
                 \<longrightarrow> nonnull (rets q)) \<longrightarrow>
           r = length data \<and>
           (\<forall>t. i \<le> t \<and> t < length data \<longrightarrow> mem (snd (plainLoop rets w d data i)) (d + int t) = data ! t)"
proof (rule plainLoop_rule [OF assms, where
      P = "\<lambda>i w rw. \<forall>r. fst rw = Inr r \<and>
           (\<forall>q. length (calls w) \<le> q \<and> q < length (calls (snd rw)) \<longrightarrow> nonnull (rets q)) \<longrightarrow>
           r = length data \<and>
           (\<forall>t. i \<le> t \<and> t < length data \<longrightarrow> mem (snd rw) (d + int t) = data ! t)"],
    goal_cases)
  case (1 w)
  show ?case by auto
next
  case (2 i w j e w1)
  show ?case by simp
next
  case (3 i w j w1)
  note r = scanRun_run [OF 3(1,2)]
  note f = memset_call_frame [OF 3(3) r(1)]
  have nn: "\<not> nonnull (rets (length (calls w)))" using f(4) [symmetric] by (simp add: nonnull_def)
  show ?case
  proof (intro allI impI, elim conjE)
    fix r0
    assume "\<forall>q. length (calls w) \<le> q \<and> q < length (calls (snd (Inr i, w1))) \<longrightarrow> nonnull (rets q)"
    then have "nonnull (rets (length (calls w)))" using f(2) by simp
    with nn show "r0 = length data \<and> (\<forall>t. i \<le> t \<and> t < length data \<longrightarrow> mem (snd (Inr i, w1)) (d + int t) = data ! t)" by simp
  qed
next
  case (4 i w j a w1)
  note r = scanRun_run [OF 4(1,2)]
  note f = memset_call_frame [OF 4(3) r(1)]
  obtain res w' where p: "plainLoop rets w1 d data j = (res, w')"
    by (cases "plainLoop rets w1 d data j")
  note g = plainLoop_frame [OF r(2) p]
  have nn: "nonnull (Returned a)" using 4(4) by (simp add: nonnull_def)
  show ?case
  proof (intro allI impI, elim conjE)
    fix r0
    assume res: "fst (plainLoop rets w1 d data j) = Inr r0"
      and ok: "\<forall>q. length (calls w) \<le> q \<and> q < length (calls (snd (plainLoop rets w1 d data j)))
                 \<longrightarrow> nonnull (rets q)"
    from ok f(2) have ok1: "\<forall>q. length (calls w1) \<le> q \<and> q < length (calls (snd (plainLoop rets w1 d data j)))
                 \<longrightarrow> nonnull (rets q)" by simp
    from 4(5) res ok1 have ih: "r0 = length data"
      "\<forall>t. j \<le> t \<and> t < length data \<longrightarrow> mem w' (d + int t) = data ! t"
      by (simp_all add: p)
    have "mem w' (d + int t) = data ! t" if t: "i \<le> t \<and> t < length data" for t
    proof (cases "t < j")
      case True
      with t have "mem w1 (d + int t) = data ! i" using f(6) [OF nn, of "d + int t"] by simp
      moreover have "mem w' (d + int t) = mem w1 (d + int t)" using g(3) [of "d + int t"] True by simp
      moreover have "data ! t = data ! i" using r(3) t True by blast
      ultimately show ?thesis by simp
    next
      case False
      with t ih(2) show ?thesis by simp
    qed
    with ih(1) show "r0 = length data \<and>
        (\<forall>t. i \<le> t \<and> t < length data \<longrightarrow> mem (snd (plainLoop rets w1 d data j)) (d + int t) = data ! t)"
      by (simp add: p)
  qed
qed

lemma plainLoop_success:
  assumes "i \<le> length data" and "plainLoop rets w d data i = (Inr r, w')"
    and "\<forall>q. length (calls w) \<le> q \<and> q < length (calls w') \<longrightarrow> nonnull (rets q)"
  shows "r = length data" and "\<And>t. i \<le> t \<Longrightarrow> t < length data \<Longrightarrow> mem w' (d + int t) = data ! t"
  using plainLoop_success_aux [OF assms(1), of rets w d] assms(2,3) by simp_all

lemma safeLoop_frame_aux:
  assumes "i \<le> length source"
  shows "regions (snd (safeLoop rets w d source lastb i)) = regions w \<and>
         length (calls w) \<le> length (calls (snd (safeLoop rets w d source lastb i))) \<and>
         (\<forall>x. \<not> (d + int i \<le> x \<and> x < d + int (length source)) \<longrightarrow>
              mem (snd (safeLoop rets w d source lastb i)) x = mem w x)"
proof (rule safeLoop_rule [OF assms, where
      P = "\<lambda>i w rw. regions (snd rw) = regions w \<and> length (calls w) \<le> length (calls (snd rw)) \<and>
         (\<forall>x. \<not> (d + int i \<le> x \<and> x < d + int (length source)) \<longrightarrow> mem (snd rw) x = mem w x)"],
    goal_cases)
  case (1 i w)
  show ?case by simp
next
  case (2 i w i1 j e w1)
  note r = scanRun_run [OF 2(3,4)]
  note f = memset_call_frame [OF 2(5) r(1)]
  show ?case using f(1,2,5) r(2) 2(1) by auto
next
  case (3 i w i1 j w1)
  note r = scanRun_run [OF 3(3,4)]
  note f = memset_call_frame [OF 3(5) r(1)]
  show ?case using f(1,2,5) r(2) 3(1) by auto
next
  case (4 i w i1 j a w1)
  note r = scanRun_run [OF 4(3,4)]
  note f = memset_call_frame [OF 4(5) r(1)]
  show ?case using f(1,2,5) r(1,2) 4(1,7) by auto
qed

lemma safeLoop_frame:
  assumes "i \<le> length source" and "safeLoop rets w d source lastb i = (res, w')"
  shows "regions w' = regions w" and "length (calls w) \<le> length (calls w')"
    and "\<And>x. \<not> (d + int i \<le> x \<and> x < d + int (length source)) \<Longrightarrow> mem w' x = mem w x"
  using safeLoop_frame_aux [OF assms(1), of rets w d lastb] assms(2) by simp_all


lemma safeLoop_success_aux:
  assumes "i \<le> length source"
  shows "\<forall>r. fst (safeLoop rets w d source lastb i) = Inr r \<and>
           (\<forall>q. length (calls w) \<le> q \<and> q < length (calls (snd (safeLoop rets w d source lastb i)))
                 \<longrightarrow> nonnull (rets q)) \<longrightarrow>
           r = length source \<and>
           (\<forall>t. i \<le> t \<and> t < length source \<longrightarrow>
              mem (snd (safeLoop rets w d source lastb i)) (d + int t) = source ! t \<or>
              (Some (source ! t) = nth_opt lastb t \<and>
               mem (snd (safeLoop rets w d source lastb i)) (d + int t) = mem w (d + int t)))"
proof (rule safeLoop_rule [OF assms, where
      P = "\<lambda>i w rw. \<forall>r. fst rw = Inr r \<and>
           (\<forall>q. length (calls w) \<le> q \<and> q < length (calls (snd rw)) \<longrightarrow> nonnull (rets q)) \<longrightarrow>
           r = length source \<and>
           (\<forall>t. i \<le> t \<and> t < length source \<longrightarrow>
              mem (snd rw) (d + int t) = source ! t \<or>
              (Some (source ! t) = nth_opt lastb t \<and> mem (snd rw) (d + int t) = mem w (d + int t)))"],
    goal_cases)
  case (1 i w)
  from skipSame_facts(2) [OF 1(1), of lastb] 1(2) show ?case by simp
next
  case (2 i w i1 j e w1)
  show ?case by simp
next
  case (3 i w i1 j w1)
  note r = scanRun_run [OF 3(3,4)]
  note f = memset_call_frame [OF 3(5) r(1)]
  have nn: "\<not> nonnull (rets (length (calls w)))" using f(4) [symmetric] by (simp add: nonnull_def)
  show ?case
  proof (intro allI impI, elim conjE)
    fix r0
    assume "\<forall>q. length (calls w) \<le> q \<and> q < length (calls (snd (Inr i1, w1))) \<longrightarrow> nonnull (rets q)"
    then have "nonnull (rets (length (calls w)))" using f(2) by simp
    with nn show "r0 = length source \<and> (\<forall>t. i \<le> t \<and> t < length source \<longrightarrow>
           mem (snd (Inr i1, w1)) (d + int t) = source ! t \<or>
           (Some (source ! t) = nth_opt lastb t \<and> mem (snd (Inr i1, w1)) (d + int t) = mem w (d + int t)))" by simp
  qed
next
  case (4 i w i1 j a w1)
  note r = scanRun_run [OF 4(3,4)]
  note f = memset_call_frame [OF 4(5) r(1)]
  obtain res w' where p: "safeLoop rets w1 d source lastb j = (res, w')"
    by (cases "safeLoop rets w1 d source lastb j")
  note g = safeLoop_frame [OF r(2) p]
  have nn: "nonnull (Returned a)" using 4(6) by (simp add: nonnull_def)
  have il: "i \<le> length source" using 4(1,3) by simp
  note sk = skipSame_facts(2) [OF il, of lastb]
  show ?case
  proof (intro allI impI, elim conjE)
    fix r0
    assume res: "fst (safeLoop rets w1 d source lastb j) = Inr r0"
      and ok: "\<forall>q. length (calls w) \<le> q \<and> q < length (calls (snd (safeLoop rets w1 d source lastb j)))
                 \<longrightarrow> nonnull (rets q)"
    from ok f(2) have ok1: "\<forall>q. length (calls w1) \<le> q \<and>
        q < length (calls (snd (safeLoop rets w1 d source lastb j))) \<longrightarrow> nonnull (rets q)" by simp
    from 4(7) res ok1 have ih: "r0 = length source"
      "\<forall>t. j \<le> t \<and> t < length source \<longrightarrow> mem w' (d + int t) = source ! t \<or>
          (Some (source ! t) = nth_opt lastb t \<and> mem w' (d + int t) = mem w1 (d + int t))"
      by (simp_all add: p)
    have "mem w' (d + int t) = source ! t \<or>
          (Some (source ! t) = nth_opt lastb t \<and> mem w' (d + int t) = mem w (d + int t))"
      if t: "i \<le> t \<and> t < length source" for t
    proof -
      consider "t < i1" | "i1 \<le> t" "t < j" | "j \<le> t" by linarith
      then show ?thesis
      proof cases
        case 1
        with t sk 4(2) have "Some (source ! t) = nth_opt lastb t" by simp
        moreover have "mem w' (d + int t) = mem w1 (d + int t)"
          using g(3) [of "d + int t"] 1 r(1) by simp
        moreover have "mem w1 (d + int t) = mem w (d + int t)"
          using f(5) [of "d + int t"] 1 by simp
        ultimately show ?thesis by simp
      next
        case 2
        then have "mem w1 (d + int t) = source ! i1" using f(6) [OF nn, of "d + int t"] by simp
        moreover have "mem w' (d + int t) = mem w1 (d + int t)" using g(3) [of "d + int t"] 2 by simp
        moreover have "source ! t = source ! i1" using r(3) 2 by blast
        ultimately show ?thesis by simp
      next
        case 3
        have "mem w1 (d + int t) = mem w (d + int t)"
          using f(5) [of "d + int t"] 3 by simp
        with ih(2) 3 t show ?thesis by auto
      qed
    qed
    with ih(1) show "r0 = length source \<and>
        (\<forall>t. i \<le> t \<and> t < length source \<longrightarrow>
           mem (snd (safeLoop rets w1 d source lastb j)) (d + int t) = source ! t \<or>
           (Some (source ! t) = nth_opt lastb t \<and>
            mem (snd (safeLoop rets w1 d source lastb j)) (d + int t) = mem w (d + int t)))"
      by (simp add: p)
  qed
qed

lemma safeLoop_failure_aux:
  assumes "i \<le> length source"
  shows "\<forall>r. fst (safeLoop rets w d source lastb i) = Inr r \<and> r < length source \<longrightarrow>
           i \<le> r \<and> Some (source ! r) \<noteq> nth_opt lastb r \<and>
           (\<forall>x. d + int r \<le> x \<longrightarrow> mem (snd (safeLoop rets w d source lastb i)) x = mem w x) \<and>
           length (calls w) < length (calls (snd (safeLoop rets w d source lastb i))) \<and>
           (\<exists>len. last (calls (snd (safeLoop rets w d source lastb i))) = (d + int r, source ! r, len)) \<and>
           rets (length (calls (snd (safeLoop rets w d source lastb i))) - 1) = Returned 0"
proof (rule safeLoop_rule [OF assms, where
      P = "\<lambda>i w rw. \<forall>r. fst rw = Inr r \<and> r < length source \<longrightarrow>
           i \<le> r \<and> Some (source ! r) \<noteq> nth_opt lastb r \<and>
           (\<forall>x. d + int r \<le> x \<longrightarrow> mem (snd rw) x = mem w x) \<and>
           length (calls w) < length (calls (snd rw)) \<and>
           (\<exists>len. last (calls (snd rw)) = (d + int r, source ! r, len)) \<and>
           rets (length (calls (snd rw)) - 1) = Returned 0"],
    goal_cases)
  case (1 i w)
  show ?case by simp
next
  case (2 i w i1 j e w1)
  show ?case by simp
next
  case (3 i w i1 j w1)
  note r = scanRun_run [OF 3(3,4)]
  note f = memset_call_frame [OF 3(5) r(1)]
  have il: "i \<le> length source" using 3(1,3) by simp
  have ne: "Some (source ! i1) \<noteq> nth_opt lastb i1"
    using skipSame_facts(3) [OF il, of lastb] 3(2,3) by simp
  have nn: "\<not> nonnull (Returned 0)" by (simp add: nonnull_def)
  have "mem w1 = mem w" by (rule f(7) [OF nn])
  with 3(1) ne f(2,3,4) show ?case by simp
next
  case (4 i w i1 j a w1)
  note r = scanRun_run [OF 4(3,4)]
  note f = memset_call_frame [OF 4(5) r(1)]
  obtain res w' where p: "safeLoop rets w1 d source lastb j = (res, w')"
    by (cases "safeLoop rets w1 d source lastb j")
  show ?case
  proof (intro allI impI, elim conjE)
    fix r0
    assume res: "fst (safeLoop rets w1 d source lastb j) = Inr r0" and lt: "r0 < length source"
    from 4(7) res lt have ih: "j \<le> r0" "Some (source ! r0) \<noteq> nth_opt lastb r0"
      "\<forall>x. d + int r0 \<le> x \<longrightarrow> mem w' x = mem w1 x"
      "length (calls w1) < length (calls w')"
      "\<exists>len. last (calls w') = (d + int r0, source ! r0, len)"
      "rets (length (calls w') - 1) = Returned 0"
      by (simp_all add: p)
    have "mem w' x = mem w x" if "d + int r0 \<le> x" for x
    proof -
      from that ih(1) have "\<not> (d + int i1 \<le> x \<and> x < d + int j)" by simp
      from f(5) [OF this] ih(3) that show ?thesis by simp
    qed
    with ih 4(1) r(1) f(2)
    show "i \<le> r0 \<and> Some (source ! r0) \<noteq> nth_opt lastb r0 \<and>
           (\<forall>x. d + int r0 \<le> x \<longrightarrow> mem (snd (safeLoop rets w1 d source lastb j)) x = mem w x) \<and>
           length (calls w) < length (calls (snd (safeLoop rets w1 d source lastb j))) \<and>
           (\<exists>len. last (calls (snd (safeLoop rets w1 d source lastb j))) = (d + int r0, source ! r0, len)) \<and>
           rets (length (calls (snd (safeLoop rets w1 d source lastb j))) - 1) = Returned 0"
      by (simp add: p)
  qed
qed

lemma safeLoop_noop:
  assumes "i \<le> length source"
    and "\<forall>t. i \<le> t \<and> t < length source \<longrightarrow> Some (source ! t) = nth_opt lastb t"
  shows "safeLoop rets w d source lastb i = (Inr (length source), w)"
proof -
  have s: "skipSame source lastb i = length source" by (rule skipSame_all [OF assms])
  show ?thesis by (subst safeLoop.simps) (simp add: Let_def s)
qed

subsection \<open>writeMemorySafeBuffer\<close>

lemma writeMemorySafeBuffer_frame:
  assumes "writeMemorySafeBuffer rets w d source lastb = (res, w')"
  shows "regions w' = regions w" and "length (calls w) \<le> length (calls w')"
    and "\<And>x. \<not> (d \<le> x \<and> x < d + int (length source)) \<Longrightarrow> mem w' x = mem w x"
proof -
  have "regions w' = regions w \<and> length (calls w) \<le> length (calls w') \<and>
        (\<forall>x. \<not> (d \<le> x \<and> x < d + int (length source)) \<longrightarrow> mem w' x = mem w x)"
  proof (cases "source = []")
    case True
    with assms show ?thesis by (simp add: writeMemorySafeBuffer_def)
  next
    case False
    with assms have "safeLoop rets w d source lastb 0 = (res, w')"
      by (simp add: writeMemorySafeBuffer_def)
    from safeLoop_frame [OF _ this] show ?thesis by simp
  qed
  then show "regions w' = regions w" and "length (calls w) \<le> length (calls w')"
    and "\<And>x. \<not> (d \<le> x \<and> x < d + int (length source)) \<Longrightarrow> mem w' x = mem w x"
    by simp_all
qed

lemma writeMemorySafeBuffer_success:
  assumes "writeMemorySafeBuffer rets w d source lastb = (Inr r, w')"
    and "\<forall>q. length (calls w) \<le> q \<and> q < length (calls w') \<longrightarrow> nonnull (rets q)"
  shows "r = length source"
    and "\<And>t. t < length source \<Longrightarrow> mem w' (d + int t) = source ! t \<or>
              (Some (source ! t) = nth_opt lastb t \<and> mem w' (d + int t) = mem w (d + int t))"
proof -
  have "r = length source \<and> (\<forall>t. t < length source \<longrightarrow> mem w' (d + int t) = source ! t \<or>
              (Some (source ! t) = nth_opt lastb t \<and> mem w' (d + int t) = mem w (d + int t)))"
  proof (cases "source = []")
    case True
    with assms show ?thesis by (simp add: writeMemorySafeBuffer_def)
  next
    case False
    with assms have s: "safeLoop rets w d source lastb 0 = (Inr r, w')"
      by (simp add: writeMemorySafeBuffer_def)
    from safeLoop_success_aux [of 0 source rets w d lastb] s assms(2) show ?thesis by simp
  qed
  then show "r = length source"
    and "\<And>t. t < length source \<Longrightarrow> mem w' (d + int t) = source ! t \<or>
              (Some (source ! t) = nth_opt lastb t \<and> mem w' (d + int t) = mem w (d + int t))"
    by simp_all
qed

lemma writeMemorySafeBuffer_failure:
  assumes "writeMemorySafeBuffer rets w d source lastb = (Inr r, w')" and "r < length source"
  shows "Some (source ! r) \<noteq> nth_opt lastb r"
    and "\<And>x. d + int r \<le> x \<Longrightarrow> mem w' x = mem w x"
    and "length (calls w) < length (calls w')"
    and "\<exists>len. last (calls w') = (d + int r, source ! r, len)"
    and "rets (length (calls w') - 1) = Returned 0"
proof -
  from assms have s: "safeLoop rets w d source lastb 0 = (Inr r, w')"
    by (auto simp: writeMemorySafeBuffer_def split: if_splits)
  from safeLoop_failure_aux [of 0 source rets w d lastb] s assms(2)
  show "Some (source ! r) \<noteq> nth_opt lastb r"
    and "\<And>x. d + int r \<le> x \<Longrightarrow> mem w' x = mem w x"
    and "length (calls w) < length (calls w')"
    and "\<exists>len. last (calls w') = (d + int r, source ! r, len)"
    and "rets (length (calls w') - 1) = Returned 0"
    by simp_all
qed

lemma writeMemorySafeBuffer_noop:
  assumes "\<forall>t. t < length source \<longrightarrow> Some (source ! t) = nth_opt lastb t"
  shows "writeMemorySafeBuffer rets w d source lastb = (Inr (length source), w)"
proof (cases "source = []")
  case True
  then show ?thesis by (simp add: writeMemorySafeBuffer_def)
next
  case False
  with safeLoop_noop [of 0 source lastb rets w d] assms show ?thesis
    by (simp add: writeMemorySafeBuffer_def)
qed

subsection \<open>Unfolding writeMemory\<close>

lemma writeMemory_Nil: "writeMemory rets w d [] = (Inr 0, w)"
  by (subst writeMemory.simps) simp

lemma writeMemory_None:
  "data \<noteq> [] \<Longrightarrow> findOverlappingRegion (regions w) d (length data) = None \<Longrightarrow>
     writeMemory rets w d data = plainLoop rets w d data 0"
  by (subst writeMemory.simps) simp

definition snapshot_updated :: "world \<Rightarrow> nat \<Rightarrow> byte list \<Rightarrow> int \<Rightarrow> world" where
  "snapshot_updated w k src dst =
     w\<lparr>regions := (regions w)[k := updateSnapshot (regions w ! k) src dst]\<rparr>"

lemma writeMemory_Some:
  assumes "data \<noteq> []" and "findOverlappingRegion (regions w) d (length data) = Some k"
    and "getOverlapInfo d (length data) (regions w ! k) = (wo, ol, snap)"
  shows "writeMemory rets w d data =
     (case (if 0 < wo then writeMemory rets w d (subarray data 0 wo) else (Inr 0, w)) of
        (Inl e, w1) \<Rightarrow> (Inl e, w1)
      | (Inr n1, w1) \<Rightarrow>
          (case writeMemorySafeBuffer rets w1 (d + int wo) (subarray data wo (wo + ol)) snap of
             (Inl e, w2) \<Rightarrow> (Inl e, w2)
           | (Inr n2, w2) \<Rightarrow>
               (case (if wo + ol < length data
                      then writeMemory rets (snapshot_updated w2 k (subarray data wo (wo + ol)) (d + int wo))
                             (d + int (wo + ol)) (drop (wo + ol) data)
                      else (Inr 0, snapshot_updated w2 k (subarray data wo (wo + ol)) (d + int wo))) of
                  (Inl e, w4) \<Rightarrow> (Inl e, w4)
                | (Inr n3, w4) \<Rightarrow> (Inr (n1 + n2 + n3), w4))))"
  using assms
  by (subst writeMemory.simps)
    (simp add: Let_def snapshot_updated_def split: prod.split sum.split)

lemma writeMemory_Some_Inr:
  assumes "data \<noteq> []" and "findOverlappingRegion (regions w) d (length data) = Some k"
    and "getOverlapInfo d (length data) (regions w ! k) = (wo, ol, snap)"
    and "writeMemory rets w d data = (Inr r, w')"
  obtains n1 w1 n2 w2 n3 where
    "(if 0 < wo then writeMemory rets w d (subarray data 0 wo) else (Inr 0, w)) = (Inr n1, w1)"
    "writeMemorySafeBuffer rets w1 (d + int wo) (subarray data wo (wo + ol)) snap = (Inr n2, w2)"
    "(if wo + ol < length data
      then writeMemory rets (snapshot_updated w2 k (subarray data wo (wo + ol)) (d + int wo))
             (d + int (wo + ol)) (drop (wo + ol) data)
      else (Inr 0, snapshot_updated w2 k (subarray data wo (wo + ol)) (d + int wo))) = (Inr n3, w')"
    "r = n1 + n2 + n3"
proof -
  let ?B = "(if 0 < wo then writeMemory rets w d (subarray data 0 wo) else (Inr 0, w))"
  obtain b w1 where B: "?B = (b, w1)" by (cases ?B)
  let ?S = "writeMemorySafeBuffer rets w1 (d + int wo) (subarray data wo (wo + ol)) snap"
  obtain s w2 where S: "?S = (s, w2)" by (cases ?S)
  let ?w3 = "snapshot_updated w2 k (subarray data wo (wo + ol)) (d + int wo)"
  let ?A = "(if wo + ol < length data
      then writeMemory rets ?w3 (d + int (wo + ol)) (drop (wo + ol) data) else (Inr 0, ?w3))"
  obtain a w4 where A: "?A = (a, w4)" by (cases ?A)
  note u = writeMemory_Some [OF assms(1-3), of rets]
  from u assms(4) B obtain n1 where b: "b = Inr n1" by (cases b) simp_all
  from u assms(4) B b S obtain n2 where s: "s = Inr n2" by (cases s) simp_all
  from u assms(4) B b S s A obtain n3 where a: "a = Inr n3" by (cases a) simp_all
  from u assms(4) B b S s A a have "r = n1 + n2 + n3" "w' = w4" by simp_all
  with that [of n1 w1 n2 w2 n3] B b S s A a show thesis by simp
qed

subsection \<open>The effect of a completed write on the registry, the log and the memory\<close>

definition eff :: "world \<Rightarrow> int \<Rightarrow> byte list \<Rightarrow> world \<Rightarrow> bool" where
  "eff w d data w' \<longleftrightarrow>
     geom (regions w') = geom (regions w) \<and>
     length (calls w) \<le> length (calls w') \<and>
     (\<forall>x. \<not> (d \<le> x \<and> x < d + int (length data)) \<longrightarrow> mem w' x = mem w x) \<and>
     (\<forall>k<length (regions w). \<forall>a. inside (regions w ! k) a \<longrightarrow>
        snap_at (regions w' ! k) a =
          (if d \<le> a \<and> a < d + int (length data) \<and> owner (regions w) a = Some k
           then data ! nat (a - d) else snap_at (regions w ! k) a))"

lemma eff_refl: "eff w d [] w"
  by (auto simp: eff_def)

lemma geom_list_update:
  "k < length rs \<Longrightarrow> remote r = remote (rs ! k) \<Longrightarrow> length (local r) = length (local (rs ! k))
     \<Longrightarrow> geom (rs[k := r]) = geom rs"
  by (simp add: geom_def list_eq_iff_nth_eq nth_list_update)

lemma eff_plain:
  assumes "findOverlappingRegion (regions w) d (length data) = None"
    and "plainLoop rets w d data 0 = (res, w')"
  shows "eff w d data w'"
proof -
  note f = plainLoop_frame [OF _ assms(2)]
  have "owner (regions w) a = None" if "d \<le> a" "a < d + int (length data)" for a
    using owner_not_found [OF assms(1) that] .
  then show ?thesis using f by (auto simp: eff_def)
qed

lemma eff_compose:
  assumes ne: "data \<noteq> []"
    and fnd: "findOverlappingRegion (regions w) d (length data) = Some k0"
    and goi: "getOverlapInfo d (length data) (regions w ! k0) = (wo, ol, snap)"
    and e1: "eff w d (subarray data 0 wo) w1"
    and r2: "regions w2 = regions w1" and c2: "length (calls w1) \<le> length (calls w2)"
    and m2: "\<And>x. \<not> (d + int wo \<le> x \<and> x < d + int wo + int ol) \<Longrightarrow> mem w2 x = mem w1 x"
    and e3: "eff (snapshot_updated w2 k0 (subarray data wo (wo + ol)) (d + int wo))
                 (d + int (wo + ol)) (drop (wo + ol) data) w'"
  shows "eff w d data w'"
proof -
  let ?n = "length data"
  let ?od = "subarray data wo (wo + ol)"
  let ?w3 = "snapshot_updated w2 k0 ?od (d + int wo)"
  from findOverlappingRegion_Some [OF fnd]
  have k0: "k0 < length (regions w)" and ov: "overlaps (regions w ! k0) d ?n" by simp_all
  from ne have n0: "0 < ?n" by simp
  note g = getOverlapInfo_facts [OF ov n0 goi]
  have lb: "length (subarray data 0 wo) = wo" using g(1) by (simp add: subarray_def)
  have lod: "length ?od = ol" using g(3) by (simp add: subarray_def)
  have la: "length (drop (wo + ol) data) = ?n - (wo + ol)" by simp
  from e1 have g1: "geom (regions w1) = geom (regions w)" by (simp add: eff_def)
  have l1: "length (regions w1) = length (regions w)" by (rule geom_length [OF g1 [symmetric]])
  have k01: "k0 < length (regions w1)" using k0 l1 by simp
  have r3: "regions ?w3 = (regions w1)[k0 := updateSnapshot (regions w1 ! k0) ?od (d + int wo)]"
    by (simp add: snapshot_updated_def r2)
  have g3: "geom (regions ?w3) = geom (regions w)"
    using geom_list_update [OF k01, of "updateSnapshot (regions w1 ! k0) ?od (d + int wo)"] g1
    by (simp add: r3)
  have l3: "length (regions ?w3) = length (regions w)" by (rule geom_length [OF g3 [symmetric]])
  from e3 have g4: "geom (regions w') = geom (regions ?w3)" by (simp add: eff_def)
  have m3: "mem ?w3 = mem w2" and c3: "calls ?w3 = calls w2" by (simp_all add: snapshot_updated_def)
  have G: "geom (regions w') = geom (regions w)" using g4 g3 by simp
  have C: "length (calls w) \<le> length (calls w')"
    using e1 e3 c2 c3 by (simp add: eff_def)
  have M: "mem w' x = mem w x" if x: "\<not> (d \<le> x \<and> x < d + int ?n)" for x
  proof -
    from x g(1,3) have "\<not> (d \<le> x \<and> x < d + int (length (subarray data 0 wo)))" by (auto simp: lb)
    with e1 have 1: "mem w1 x = mem w x" by (simp add: eff_def)
    from x g(1,3) have "\<not> (d + int wo \<le> x \<and> x < d + int wo + int ol)" by auto
    from m2 [OF this] have 2: "mem w2 x = mem w1 x" .
    from x g(1,3) have "\<not> (d + int (wo + ol) \<le> x \<and> x < d + int (wo + ol) + int (length (drop (wo + ol) data)))"
      by auto
    with e3 have 3: "mem w' x = mem ?w3 x" by (simp add: eff_def)
    from 1 2 3 m3 show ?thesis by simp
  qed
  have S: "snap_at (regions w' ! k) a =
          (if d \<le> a \<and> a < d + int ?n \<and> owner (regions w) a = Some k
           then data ! nat (a - d) else snap_at (regions w ! k) a)"
    if k: "k < length (regions w)" and ins: "inside (regions w ! k) a" for k a
  proof -
    have ins1: "inside (regions w1 ! k) a" using geom_inside [OF g1 [symmetric], of k a] k l1 ins by simp
    have ins3: "inside (regions ?w3 ! k) a" using geom_inside [OF g3 [symmetric], of k a] k l3 ins by simp
    have s1: "snap_at (regions w1 ! k) a =
          (if d \<le> a \<and> a < d + int wo \<and> owner (regions w) a = Some k
           then subarray data 0 wo ! nat (a - d) else snap_at (regions w ! k) a)"
      using e1 k ins by (simp add: eff_def lb)
    have s3: "snap_at (regions ?w3 ! k) a =
          (if k = k0 \<and> d + int wo \<le> a \<and> a < d + int wo + int ol
           then ?od ! nat (a - (d + int wo)) else snap_at (regions w1 ! k) a)"
    proof (cases "k = k0")
      case True
      have "inside (regions w1 ! k0) a" using ins1 True by simp
      from updateSnapshot_snap_at [OF this, of ?od "d + int wo"] True k01
      show ?thesis by (simp add: r3 lod)
    next
      case False
      then show ?thesis using k l1 by (simp add: r3)
    qed
    have s4: "snap_at (regions w' ! k) a =
          (if d + int (wo + ol) \<le> a \<and> a < d + int ?n \<and> owner (regions w) a = Some k
           then drop (wo + ol) data ! nat (a - (d + int (wo + ol))) else snap_at (regions ?w3 ! k) a)"
    proof -
      have "owner (regions ?w3) a = owner (regions w) a" by (rule owner_geom [OF g3 [symmetric]])
      moreover have "d + int (wo + ol) + int (length (drop (wo + ol) data)) = d + int ?n"
        using g(3) by simp
      ultimately show ?thesis using e3 k l3 ins3 by (simp add: eff_def)
    qed
    have zone: "inside (regions w ! k0) a \<longleftrightarrow> d + int wo \<le> a \<and> a < d + int wo + int ol"
      if "d \<le> a" "a < d + int ?n"
      by (rule getOverlapInfo_range [OF ov n0 goi that])
    consider (out) "\<not> (d \<le> a \<and> a < d + int ?n)"
      | (before) "d \<le> a" "a < d + int wo"
      | (mid) "d + int wo \<le> a" "a < d + int wo + int ol"
      | (after) "d + int (wo + ol) \<le> a" "a < d + int ?n"
      by linarith
    then show ?thesis
    proof cases
      case out
      with g(1,3) have "\<not> (d \<le> a \<and> a < d + int wo)" "\<not> (d + int wo \<le> a \<and> a < d + int wo + int ol)"
        "\<not> (d + int (wo + ol) \<le> a \<and> a < d + int ?n)" by auto
      with s1 s3 s4 out show ?thesis by auto
    next
      case before
      with g(1,3) have z: "d \<le> a \<and> a < d + int ?n" "\<not> (d + int wo \<le> a \<and> a < d + int wo + int ol)"
        "\<not> (d + int (wo + ol) \<le> a \<and> a < d + int ?n)" by auto
      have "subarray data 0 wo ! nat (a - d) = data ! nat (a - d)"
        using before by (simp add: subarray_def)
      with s1 s3 s4 z before show ?thesis by auto
    next
      case mid
      with g(1,3) have z: "d \<le> a \<and> a < d + int ?n" "\<not> (d \<le> a \<and> a < d + int wo)"
        "\<not> (d + int (wo + ol) \<le> a \<and> a < d + int ?n)" by auto
      from zone z(1) mid have "inside (regions w ! k0) a" by simp
      from owner_of_found [OF fnd _ _ this] z(1) have ow: "owner (regions w) a = Some k0" by simp
      have "nat (a - (d + int wo)) < ol" using mid by simp
      moreover have "wo + nat (a - (d + int wo)) = nat (a - d)" using mid by simp
      ultimately have "?od ! nat (a - (d + int wo)) = data ! nat (a - d)"
        using g(3) by (simp add: subarray_def)
      with s1 s3 s4 z mid ow show ?thesis by auto
    next
      case after
      with g(1,3) have z: "d \<le> a \<and> a < d + int ?n" "\<not> (d \<le> a \<and> a < d + int wo)"
        "\<not> (d + int wo \<le> a \<and> a < d + int wo + int ol)" by auto
      have "wo + ol + nat (a - (d + int (wo + ol))) = nat (a - d)" using after by simp
      then have "drop (wo + ol) data ! nat (a - (d + int (wo + ol))) = data ! nat (a - d)"
        using g(3) by simp
      with s1 s3 s4 z after show ?thesis by auto
    qed
  qed
  show ?thesis unfolding eff_def using G C M S by blast
qed

lemma writeMemory_eff:
  "writeMemory rets w d data = (Inr r, w') \<Longrightarrow> eff w d data w'"
proof (induction "length data" arbitrary: w d data r w' rule: less_induct)
  case less
  show ?case
  proof (cases "data = []")
    case True
    with less.prems show ?thesis by (simp add: writeMemory_Nil eff_refl)
  next
    case ne: False
    show ?thesis
    proof (cases "findOverlappingRegion (regions w) d (length data)")
      case None
      with less.prems ne have "plainLoop rets w d data 0 = (Inr r, w')"
        by (simp add: writeMemory_None)
      from eff_plain [OF None this] show ?thesis .
    next
      case (Some k0)
      obtain wo ol snap where goi: "getOverlapInfo d (length data) (regions w ! k0) = (wo, ol, snap)"
        by (cases "getOverlapInfo d (length data) (regions w ! k0)")
      from findOverlappingRegion_Some [OF Some]
      have ov: "overlaps (regions w ! k0) d (length data)" by simp
      from ne have n0: "0 < length data" by simp
      note g = getOverlapInfo_facts [OF ov n0 goi]
      let ?od = "subarray data wo (wo + ol)"
      obtain n1 w1 n2 w2 n3 where
        B: "(if 0 < wo then writeMemory rets w d (subarray data 0 wo) else (Inr 0, w)) = (Inr n1, w1)"
        and S: "writeMemorySafeBuffer rets w1 (d + int wo) ?od snap = (Inr n2, w2)"
        and A: "(if wo + ol < length data
            then writeMemory rets (snapshot_updated w2 k0 ?od (d + int wo))
                   (d + int (wo + ol)) (drop (wo + ol) data)
            else (Inr 0, snapshot_updated w2 k0 ?od (d + int wo))) = (Inr n3, w')"
        by (rule writeMemory_Some_Inr [OF ne Some goi less.prems])
      have lod: "length ?od = ol" using g(3) by (simp add: subarray_def)
      have e1: "eff w d (subarray data 0 wo) w1"
      proof (cases "0 < wo")
        case True
        with B have "writeMemory rets w d (subarray data 0 wo) = (Inr n1, w1)" by simp
        moreover have "length (subarray data 0 wo) < length data" using g(1) by (simp add: subarray_def)
        ultimately show ?thesis using less.hyps by blast
      next
        case False
        with B show ?thesis by (simp add: subarray_def eff_refl)
      qed
      note f2 = writeMemorySafeBuffer_frame [OF S]
      have m2: "\<And>x. \<not> (d + int wo \<le> x \<and> x < d + int wo + int ol) \<Longrightarrow> mem w2 x = mem w1 x"
        using f2(3) by (simp add: lod)
      have e3: "eff (snapshot_updated w2 k0 ?od (d + int wo)) (d + int (wo + ol)) (drop (wo + ol) data) w'"
      proof (cases "wo + ol < length data")
        case True
        with A have "writeMemory rets (snapshot_updated w2 k0 ?od (d + int wo))
                   (d + int (wo + ol)) (drop (wo + ol) data) = (Inr n3, w')" by simp
        moreover have "length (drop (wo + ol) data) < length data" using g(2) n0 by simp
        ultimately show ?thesis using less.hyps by blast
      next
        case False
        with A show ?thesis by (simp add: eff_refl)
      qed
      show ?thesis by (rule eff_compose [OF ne Some goi e1 f2(1) f2(2) m2 e3])
    qed
  qed
qed

lemma snap_at_local_eq:
  assumes "remote r' = remote r" and "length (local r') = length (local r)"
    and "\<And>a. inside r a \<Longrightarrow> snap_at r' a = snap_at r a"
  shows "local r' = local r"
proof (rule nth_equalityI)
  show "length (local r') = length (local r)" by (rule assms(2))
  fix i assume "i < length (local r')"
  then have "inside r (remote r + int i)" using assms(2) by (simp add: inside_def)
  from assms(3) [OF this] show "local r' ! i = local r ! i"
    by (simp add: snap_at_def assms(1))
qed

lemma updateSnapshot_same:
  assumes "\<And>a. inside r a \<Longrightarrow> dst \<le> a \<Longrightarrow> a < dst + int (length src) \<Longrightarrow> snap_at r a = src ! nat (a - dst)"
  shows "updateSnapshot r src dst = r"
proof -
  have "local (updateSnapshot r src dst) = local r"
  proof (rule snap_at_local_eq)
    fix a assume "inside r a"
    from updateSnapshot_snap_at [OF this, of src dst] assms [OF this]
    show "snap_at (updateSnapshot r src dst) a = snap_at r a" by auto
  qed simp_all
  moreover have "updateSnapshot r src dst = r\<lparr>local := local (updateSnapshot r src dst)\<rparr>"
    by (simp add: updateSnapshot_def Let_def)
  ultimately show ?thesis by simp
qed

lemma snapshot_updated_same:
  assumes "k < length (regions w)"
    and "\<And>a. inside (regions w ! k) a \<Longrightarrow> dst \<le> a \<Longrightarrow> a < dst + int (length src) \<Longrightarrow>
            snap_at (regions w ! k) a = src ! nat (a - dst)"
  shows "snapshot_updated w k src dst = w"
  using updateSnapshot_same [of "regions w ! k" dst src] assms
  by (simp add: snapshot_updated_def)

text \<open>
  When every address of the write range is owned by a region whose snapshot already holds
  the source byte, the write issues no call and changes nothing.
\<close>

lemma writeMemory_noop:
  "\<forall>a. d \<le> a \<and> a < d + int (length data) \<longrightarrow>
       (\<exists>k. owner (regions w) a = Some k \<and> snap_at (regions w ! k) a = data ! nat (a - d)) \<Longrightarrow>
   writeMemory rets w d data = (Inr (length data), w)"
proof (induction "length data" arbitrary: d data rule: less_induct)
  case less
  show ?case
  proof (cases "data = []")
    case True
    then show ?thesis by (simp add: writeMemory_Nil)
  next
    case ne: False
    then have n0: "0 < length data" by simp
    from less.prems n0 obtain kd where "owner (regions w) d = Some kd" by force
    from owner_Some [OF this] have "kd < length (regions w)" "inside (regions w ! kd) d" by simp_all
    then have "overlaps (regions w ! kd) d (length data)" "regions w ! kd \<in> set (regions w)"
      using inside_overlaps [of "regions w ! kd" d d "length data"] n0 by simp_all
    then have "findOverlappingRegion (regions w) d (length data) \<noteq> None"
      by (auto simp: findOverlappingRegion_None)
    then obtain k0 where fnd: "findOverlappingRegion (regions w) d (length data) = Some k0" by auto
    obtain wo ol snap where goi: "getOverlapInfo d (length data) (regions w ! k0) = (wo, ol, snap)"
      by (cases "getOverlapInfo d (length data) (regions w ! k0)")
    from findOverlappingRegion_Some [OF fnd]
    have k0: "k0 < length (regions w)" and ov: "overlaps (regions w ! k0) d (length data)" by simp_all
    note g = getOverlapInfo_facts [OF ov n0 goi]
    let ?od = "subarray data wo (wo + ol)"
    have lod: "length ?od = ol" using g(3) by (simp add: subarray_def)
    have B: "(if 0 < wo then writeMemory rets w d (subarray data 0 wo) else (Inr 0, w)) = (Inr wo, w)"
    proof (cases "0 < wo")
      case True
      have "writeMemory rets w d (subarray data 0 wo) = (Inr (length (subarray data 0 wo)), w)"
      proof (rule less.hyps)
        show "length (subarray data 0 wo) < length data" using g(1) by (simp add: subarray_def)
        show "\<forall>a. d \<le> a \<and> a < d + int (length (subarray data 0 wo)) \<longrightarrow>
           (\<exists>k. owner (regions w) a = Some k \<and> snap_at (regions w ! k) a = subarray data 0 wo ! nat (a - d))"
        proof (intro allI impI)
          fix a assume a: "d \<le> a \<and> a < d + int (length (subarray data 0 wo))"
          with g(1) have a0: "d \<le> a \<and> a < d + int wo" by (simp add: subarray_def)
          with g(1) have a': "d \<le> a \<and> a < d + int (length data)" "nat (a - d) < wo"
            by auto
          with less.prems obtain k where "owner (regions w) a = Some k"
            "snap_at (regions w ! k) a = data ! nat (a - d)" by blast
          moreover have "subarray data 0 wo ! nat (a - d) = data ! nat (a - d)"
            using a'(2) by (simp add: subarray_def)
          ultimately show "\<exists>k. owner (regions w) a = Some k \<and>
              snap_at (regions w ! k) a = subarray data 0 wo ! nat (a - d)" by simp
        qed
      qed
      with True g(1) show ?thesis by (simp add: subarray_def)
    next
      case False
      then show ?thesis by simp
    qed
    have mid: "snap_at (regions w ! k0) a = ?od ! nat (a - (d + int wo))"
      if a: "inside (regions w ! k0) a" "d + int wo \<le> a" "a < d + int wo + int ol" for a
    proof -
      from a g(3) have r: "d \<le> a" "a < d + int (length data)" by simp_all
      from owner_of_found [OF fnd r a(1)] have "owner (regions w) a = Some k0" .
      with less.prems r have "snap_at (regions w ! k0) a = data ! nat (a - d)" by auto
      moreover have "nat (a - (d + int wo)) < ol" "wo + nat (a - (d + int wo)) = nat (a - d)"
        using a by simp_all
      then have "?od ! nat (a - (d + int wo)) = data ! nat (a - d)"
        using g(3) by (simp add: subarray_def)
      ultimately show ?thesis by simp
    qed
    have S: "writeMemorySafeBuffer rets w (d + int wo) ?od snap = (Inr ol, w)"
    proof -
      have "\<forall>t. t < length ?od \<longrightarrow> Some (?od ! t) = nth_opt snap t"
      proof (intro allI impI)
        fix t assume "t < length ?od"
        then have t: "t < ol" by (simp add: lod)
        note s = getOverlapInfo_snap [OF ov n0 goi t]
        from mid [OF s(1)] t have "snap_at (regions w ! k0) (d + int wo + int t) = ?od ! t" by simp
        with s(2) t g(4) show "Some (?od ! t) = nth_opt snap t" by (simp add: nth_opt_def)
      qed
      from writeMemorySafeBuffer_noop [OF this, of rets w "d + int wo"] show ?thesis by (simp add: lod)
    qed
    have U: "snapshot_updated w k0 ?od (d + int wo) = w"
      by (rule snapshot_updated_same [OF k0]) (use mid lod in simp)
    have A: "(if wo + ol < length data
            then writeMemory rets w (d + int (wo + ol)) (drop (wo + ol) data)
            else (Inr 0, w)) = (Inr (length data - (wo + ol)), w)"
    proof (cases "wo + ol < length data")
      case True
      have "writeMemory rets w (d + int (wo + ol)) (drop (wo + ol) data)
              = (Inr (length (drop (wo + ol) data)), w)"
      proof (rule less.hyps)
        show "length (drop (wo + ol) data) < length data" using g(2) n0 by simp
        show "\<forall>a. d + int (wo + ol) \<le> a \<and> a < d + int (wo + ol) + int (length (drop (wo + ol) data)) \<longrightarrow>
           (\<exists>k. owner (regions w) a = Some k \<and>
                snap_at (regions w ! k) a = drop (wo + ol) data ! nat (a - (d + int (wo + ol))))"
        proof (intro allI impI)
          fix a assume a: "d + int (wo + ol) \<le> a \<and> a < d + int (wo + ol) + int (length (drop (wo + ol) data))"
          with g(3) have a': "d \<le> a \<and> a < d + int (length data)" by simp
          with less.prems obtain k where "owner (regions w) a = Some k"
            "snap_at (regions w ! k) a = data ! nat (a - d)" by blast
          moreover have "wo + ol + nat (a - (d + int (wo + ol))) = nat (a - d)" using a by auto
          then have "drop (wo + ol) data ! nat (a - (d + int (wo + ol))) = data ! nat (a - d)"
            using g(3) by simp
          ultimately show "\<exists>k. owner (regions w) a = Some k \<and>
                snap_at (regions w ! k) a = drop (wo + ol) data ! nat (a - (d + int (wo + ol)))" by simp
        qed
      qed
      with True show ?thesis by simp
    next
      case False
      with g(3) show ?thesis by simp
    qed
    have "wo + ol + (length data - (wo + ol)) = length data" using g(3) by simp
    moreover have "writeMemory rets w d data = (Inr (wo + ol + (length data - (wo + ol))), w)"
      unfolding writeMemory_Some [OF ne fnd goi, of rets] B prod.case sum.case S U A ..
    ultimately show ?thesis by simp
  qed
qed

subsection \<open>Idempotent rewrite\<close>

lemmas write_eval =
  writeMemory.simps safeLoop.simps plainLoop.simps skipSame.simps scanRun.simps
  writeMemorySafeBuffer_def getOverlapInfo_def updateSnapshot_def buffer_copy_def
  subarray_def memset_call_def nth_opt_def Let_def

text \<open>
  Claim C5 (idempotent rewrite). When the span of a registered region wholly contains the
  write range and \<open>writeMemory(dest, buf)\<close> has completed, the same write repeated at once
  issues no in-thread memset (the world, and with it the call log, is unchanged) and
  returns \<open>buf.length\<close>, whatever the in-thread calls would return. The first write only
  has to return; that all its memsets succeeded is not needed.
\<close>

theorem writeMemory_idempotent_rewrite:
  assumes k: "k < length (regions w)"
    and lo: "remote (regions w ! k) \<le> dest"
    and hi: "dest + int (length buf) \<le> remote (regions w ! k) + int (length (local (regions w ! k)))"
    and first: "writeMemory rets w dest buf = (Inr r, w1)"
  shows "writeMemory rets' w1 dest buf = (Inr (length buf), w1)
       \<and> calls (snd (writeMemory rets' w1 dest buf)) = calls w1"
proof -
  from writeMemory_eff [OF first] have e: "eff w dest buf w1" .
  then have g: "geom (regions w1) = geom (regions w)" by (simp add: eff_def)
  have "\<exists>k'. owner (regions w1) a = Some k' \<and> snap_at (regions w1 ! k') a = buf ! nat (a - dest)"
    if a: "dest \<le> a \<and> a < dest + int (length buf)" for a
  proof -
    from a lo hi have "inside (regions w ! k) a" by (simp add: inside_def)
    with k have "owner (regions w) a \<noteq> None" by (auto simp: owner_None)
    then obtain k' where o: "owner (regions w) a = Some k'" by auto
    from owner_Some [OF o] have k': "k' < length (regions w)" "inside (regions w ! k') a" by simp_all
    from e k' a o have "snap_at (regions w1 ! k') a = buf ! nat (a - dest)" by (simp add: eff_def)
    moreover have "owner (regions w1) a = Some k'" using owner_geom [OF g [symmetric], of a] o by simp
    ultimately show ?thesis by blast
  qed
  then have "writeMemory rets' w1 dest buf = (Inr (length buf), w1)"
    by (intro writeMemory_noop) blast
  then show ?thesis by simp
qed

theorem writeMemory_idempotent_rewrite_witness:
  "\<exists>w1. writeMemory (\<lambda>_. Returned 1)
            \<lparr>regions = [\<lparr>remote = 100, local = [0, 0, 0, 0]\<rparr>], mem = (\<lambda>_. 0), calls = []\<rparr>
            101 [5, 5] = (Inr 2, w1)
       \<and> calls w1 = [(101, 5, 2)]
       \<and> regions w1 = [\<lparr>remote = 100, local = [0, 5, 5, 0]\<rparr>]
       \<and> writeMemory (\<lambda>_. Returned 0) w1 101 [5, 5] = (Inr 2, w1)"
proof -
  let ?w = "\<lparr>regions = [\<lparr>remote = 100, local = [0, 0, 0, 0 :: byte]\<rparr>], mem = (\<lambda>_. 0 :: byte), calls = []\<rparr>"
  obtain r w1 where f: "writeMemory (\<lambda>_. Returned 1) ?w 101 [5, 5] = (r, w1)"
    by (cases "writeMemory (\<lambda>_. Returned 1) ?w 101 [5, 5]")
  have "fst (writeMemory (\<lambda>_. Returned 1) ?w 101 [5, 5]) = Inr 2"
    by (simp add: write_eval)
  with f have r: "r = Inr 2" by simp
  have "calls (snd (writeMemory (\<lambda>_. Returned 1) ?w 101 [5, 5])) = [(101, 5, 2)]"
    by (simp add: write_eval)
  with f have c: "calls w1 = [(101, 5, 2)]" by simp
  have "regions (snd (writeMemory (\<lambda>_. Returned 1) ?w 101 [5, 5])) = [\<lparr>remote = 100, local = [0, 5, 5, 0]\<rparr>]"
    by (simp add: write_eval)
  with f have g: "regions w1 = [\<lparr>remote = 100, local = [0, 5, 5, 0]\<rparr>]" by simp
  have "writeMemory (\<lambda>_. Returned 0) w1 101 [5, 5] = (Inr (length [5, 5 :: byte]), w1)"
    using writeMemory_idempotent_rewrite [of 0 ?w 101 "[5, 5]" "\<lambda>_. Returned 1" 2 w1 "\<lambda>_. Returned 0"] f r
    by simp
  with f r c g show ?thesis by simp
qed

subsection \<open>A write whose memsets all succeed\<close>

definition written :: "world \<Rightarrow> int \<Rightarrow> byte list \<Rightarrow> world \<Rightarrow> bool" where
  "written w d data w' \<longleftrightarrow>
     (\<forall>a. d \<le> a \<and> a < d + int (length data) \<longrightarrow>
        mem w' a = data ! nat (a - d) \<or>
        (\<exists>k. owner (regions w) a = Some k \<and> snap_at (regions w ! k) a = data ! nat (a - d) \<and>
             mem w' a = mem w a))"

lemma written_Nil: "written w d [] w'"
  by (auto simp: written_def)

lemma snapshot_updated_simps [simp]:
  "mem (snapshot_updated w k src dst) = mem w"
  "calls (snapshot_updated w k src dst) = calls w"
  by (simp_all add: snapshot_updated_def)

lemma snapshot_updated_snap_at:
  assumes "k0 < length (regions w)" and "k < length (regions w)" and "inside (regions w ! k) a"
  shows "snap_at (regions (snapshot_updated w k0 src dst) ! k) a =
           (if k = k0 \<and> dst \<le> a \<and> a < dst + int (length src)
            then src ! nat (a - dst) else snap_at (regions w ! k) a)"
proof (cases "k = k0")
  case True
  with updateSnapshot_snap_at [of "regions w ! k0" a src dst] assms
  show ?thesis by (simp add: snapshot_updated_def)
next
  case False
  with assms show ?thesis by (simp add: snapshot_updated_def)
qed

lemma snapshot_updated_geom:
  "k0 < length (regions w) \<Longrightarrow> geom (regions (snapshot_updated w k0 src dst)) = geom (regions w)"
  using geom_list_update [of k0 "regions w" "updateSnapshot (regions w ! k0) src dst"]
  by (simp add: snapshot_updated_def)

lemma writeMemory_success:
  "writeMemory rets w d data = (Inr r, w') \<Longrightarrow>
   \<forall>q. length (calls w) \<le> q \<and> q < length (calls w') \<longrightarrow> nonnull (rets q) \<Longrightarrow>
     r = length data \<and> written w d data w'"
proof (induction "length data" arbitrary: w d data r w' rule: less_induct)
  case less
  note wr = less.prems(1) and ok = less.prems(2)
  show ?case
  proof (cases "data = []")
    case True
    with wr show ?thesis by (simp add: writeMemory_Nil written_Nil)
  next
    case ne: False
    then have n0: "0 < length data" by simp
    show ?thesis
    proof (cases "findOverlappingRegion (regions w) d (length data)")
      case None
      with wr ne have p: "plainLoop rets w d data 0 = (Inr r, w')"
        by (simp add: writeMemory_None)
      note s = plainLoop_success [OF _ p ok]
      have "mem w' a = data ! nat (a - d)" if "d \<le> a \<and> a < d + int (length data)" for a
      proof -
        from that have "nat (a - d) < length data" "d + int (nat (a - d)) = a" by auto
        with s(2) [of "nat (a - d)"] show ?thesis by simp
      qed
      with s(1) show ?thesis by (simp add: written_def)
    next
      case (Some k0)
      obtain wo ol snap where goi: "getOverlapInfo d (length data) (regions w ! k0) = (wo, ol, snap)"
        by (cases "getOverlapInfo d (length data) (regions w ! k0)")
      from findOverlappingRegion_Some [OF Some]
      have k0: "k0 < length (regions w)" and ov: "overlaps (regions w ! k0) d (length data)" by simp_all
      note g = getOverlapInfo_facts [OF ov n0 goi]
      let ?od = "subarray data wo (wo + ol)"
      let ?bd = "subarray data 0 wo"
      let ?ad = "drop (wo + ol) data"
      obtain n1 w1 n2 w2 n3 where
        B: "(if 0 < wo then writeMemory rets w d ?bd else (Inr 0, w)) = (Inr n1, w1)"
        and S: "writeMemorySafeBuffer rets w1 (d + int wo) ?od snap = (Inr n2, w2)"
        and A: "(if wo + ol < length data
            then writeMemory rets (snapshot_updated w2 k0 ?od (d + int wo)) (d + int (wo + ol)) ?ad
            else (Inr 0, snapshot_updated w2 k0 ?od (d + int wo))) = (Inr n3, w')"
        and r: "r = n1 + n2 + n3"
        by (rule writeMemory_Some_Inr [OF ne Some goi wr])
      let ?w3 = "snapshot_updated w2 k0 ?od (d + int wo)"
      have lod: "length ?od = ol" using g(3) by (simp add: subarray_def)
      have lbd: "length ?bd = wo" using g(1) by (simp add: subarray_def)
      have lad: "length ?ad = length data - (wo + ol)" by simp
      have e1: "eff w d ?bd w1"
      proof (cases "0 < wo")
        case True
        with B writeMemory_eff show ?thesis by simp
      next
        case False
        with B show ?thesis by (simp add: subarray_def eff_refl)
      qed
      note f2 = writeMemorySafeBuffer_frame [OF S]
      have e3: "eff ?w3 (d + int (wo + ol)) ?ad w'"
      proof (cases "wo + ol < length data")
        case True
        with A writeMemory_eff show ?thesis by simp
      next
        case False
        with A show ?thesis by (simp add: eff_refl)
      qed
      from e1 have c1: "length (calls w) \<le> length (calls w1)"
        and g1: "geom (regions w1) = geom (regions w)"
        and m1: "\<And>x. \<not> (d \<le> x \<and> x < d + int wo) \<Longrightarrow> mem w1 x = mem w x"
        by (simp_all add: eff_def lbd)
      from e3 have c3: "length (calls w2) \<le> length (calls w')"
        and m3: "\<And>x. \<not> (d + int (wo + ol) \<le> x \<and> x < d + int (length data)) \<Longrightarrow> mem w' x = mem w2 x"
        using g(3) by (simp_all add: eff_def)
      have m2: "\<And>x. \<not> (d + int wo \<le> x \<and> x < d + int wo + int ol) \<Longrightarrow> mem w2 x = mem w1 x"
        using f2(3) by (simp add: lod)
      have l1: "length (regions w1) = length (regions w)" by (rule geom_length [OF g1 [symmetric]])
      have k02: "k0 < length (regions w2)" using k0 l1 f2(1) by simp
      have g3: "geom (regions ?w3) = geom (regions w)"
        using snapshot_updated_geom [OF k02] f2(1) g1 by simp
      \<comment> \<open>the before span\<close>
      have ok1: "\<forall>q. length (calls w) \<le> q \<and> q < length (calls w1) \<longrightarrow> nonnull (rets q)"
        using ok f2(2) c3 by auto
      have b: "n1 = wo \<and> written w d ?bd w1"
      proof (cases "0 < wo")
        case True
        with B have "writeMemory rets w d ?bd = (Inr n1, w1)" by simp
        moreover have "length ?bd < length data" using g(1) lbd by simp
        ultimately have "n1 = length ?bd \<and> written w d ?bd w1" using less.hyps ok1 by blast
        then show ?thesis by (simp add: lbd)
      next
        case False
        with B show ?thesis by (simp add: subarray_def written_Nil)
      qed
      \<comment> \<open>the snapshot-safe span\<close>
      have ok2: "\<forall>q. length (calls w1) \<le> q \<and> q < length (calls w2) \<longrightarrow> nonnull (rets q)"
        using ok c1 c3 by auto
      note s2 = writeMemorySafeBuffer_success [OF S ok2]
      \<comment> \<open>the after span\<close>
      have ok3: "\<forall>q. length (calls ?w3) \<le> q \<and> q < length (calls w') \<longrightarrow> nonnull (rets q)"
        using ok c1 f2(2) by auto
      have a: "n3 = length data - (wo + ol) \<and> written ?w3 (d + int (wo + ol)) ?ad w'"
      proof (cases "wo + ol < length data")
        case True
        with A have "writeMemory rets ?w3 (d + int (wo + ol)) ?ad = (Inr n3, w')" by simp
        moreover have "length ?ad < length data" using g(2) n0 by simp
        ultimately have "n3 = length ?ad \<and> written ?w3 (d + int (wo + ol)) ?ad w'"
          using less.hyps ok3 by blast
        then show ?thesis by simp
      next
        case False
        with A show ?thesis by (simp add: written_Nil)
      qed
      have R: "r = length data" using r b a s2(1) lod g(3) by simp
      have W: "mem w' x = data ! nat (x - d) \<or>
          (\<exists>k. owner (regions w) x = Some k \<and> snap_at (regions w ! k) x = data ! nat (x - d) \<and>
               mem w' x = mem w x)"
        if x: "d \<le> x \<and> x < d + int (length data)" for x
      proof -
        consider (before) "x < d + int wo"
          | (mid) "d + int wo \<le> x" "x < d + int wo + int ol"
          | (after) "d + int (wo + ol) \<le> x"
          by linarith
        then show ?thesis
        proof cases
          case before
          with x have xb: "d \<le> x \<and> x < d + int (length ?bd)" by (simp add: lbd)
          have "nat (x - d) < wo" using before x by auto
          then have e: "?bd ! nat (x - d) = data ! nat (x - d)"
            by (simp add: subarray_def)
          have "mem w2 x = mem w1 x" using m2 [of x] before by simp
          moreover have "mem w' x = mem w2 x" using m3 [of x] before by simp
          ultimately have "mem w' x = mem w1 x" by simp
          with b xb e show ?thesis by (auto simp: written_def)
        next
          case mid
          define t where "t = nat (x - (d + int wo))"
          have t: "t < ol" "x = d + int wo + int t" "wo + t = nat (x - d)"
            using mid by (simp_all add: t_def)
          have e: "?od ! t = data ! nat (x - d)"
            using t g(3) by (simp add: subarray_def)
          note gs = getOverlapInfo_snap [OF ov n0 goi t(1)]
          have ow: "owner (regions w) x = Some k0"
            using owner_of_found [OF Some _ _ gs(1)] x t(2) by simp
          have sn: "nth_opt snap t = Some (snap_at (regions w ! k0) x)"
            using gs(2) t g(4) by (simp add: nth_opt_def)
          have "mem w1 x = mem w x" using m1 [of x] mid by simp
          moreover have "mem w' x = mem w2 x" using m3 [of x] mid by simp
          moreover have "mem w2 x = ?od ! t \<or> (Some (?od ! t) = nth_opt snap t \<and> mem w2 x = mem w1 x)"
            using s2(2) [of t] t lod by simp
          ultimately show ?thesis using e ow sn by auto
        next
          case after
          with x g(3) have xa: "d + int (wo + ol) \<le> x \<and> x < d + int (wo + ol) + int (length ?ad)"
            by simp
          have "wo + ol + nat (x - (d + int (wo + ol))) = nat (x - d)" using after by simp
          then have e: "?ad ! nat (x - (d + int (wo + ol))) = data ! nat (x - d)"
            using g(3) by simp
          have m: "mem ?w3 x = mem w x" using m1 [of x] m2 [of x] after by simp
          from a xa have "mem w' x = ?ad ! nat (x - (d + int (wo + ol))) \<or>
              (\<exists>k. owner (regions ?w3) x = Some k \<and>
                   snap_at (regions ?w3 ! k) x = ?ad ! nat (x - (d + int (wo + ol))) \<and>
                   mem w' x = mem ?w3 x)"
            by (simp add: written_def)
          then show ?thesis
          proof
            assume "mem w' x = ?ad ! nat (x - (d + int (wo + ol)))"
            with e show ?thesis by simp
          next
            assume "\<exists>k. owner (regions ?w3) x = Some k \<and>
                   snap_at (regions ?w3 ! k) x = ?ad ! nat (x - (d + int (wo + ol))) \<and>
                   mem w' x = mem ?w3 x"
            then obtain k where k: "owner (regions ?w3) x = Some k"
              "snap_at (regions ?w3 ! k) x = ?ad ! nat (x - (d + int (wo + ol)))"
              "mem w' x = mem ?w3 x" by blast
            have o: "owner (regions w) x = Some k" using owner_geom [OF g3 [symmetric], of x] k(1) by simp
            from owner_Some [OF o] have kk: "k < length (regions w)" "inside (regions w ! k) x" by simp_all
            have kk2: "k < length (regions w2)" "inside (regions w2 ! k) x"
              using kk l1 f2(1) geom_inside [OF g1 [symmetric], of k x] by simp_all
            have "snap_at (regions ?w3 ! k) x = snap_at (regions w2 ! k) x"
              using snapshot_updated_snap_at [OF k02 kk2, of ?od "d + int wo"] after by (simp add: lod)
            also have "\<dots> = snap_at (regions w1 ! k) x" by (simp add: f2(1))
            also have "\<dots> = snap_at (regions w ! k) x"
              using e1 kk after by (simp add: eff_def lbd)
            finally have "snap_at (regions w ! k) x = data ! nat (x - d)" using k(2) e by simp
            with o k(3) m show ?thesis by auto
          qed
        qed
      qed
      from R W show ?thesis by (simp add: written_def)
    qed
  qed
qed

subsection \<open>Snapshot consistency\<close>

text \<open>
  What the code keeps for the region that \<open>findOverlappingRegion\<close> selects. Take a
  \<open>writeMemory\<close> call that returns, and a byte address \<open>a\<close> of the write range that lies
  in the registered region \<open>k\<close> and in no region registered before \<open>k\<close>. Afterwards the
  snapshot byte of region \<open>k\<close> at \<open>a\<close> is the source byte. When moreover every in-thread
  memset returned a non-null address, the whole buffer was written, and if the snapshot
  byte of region \<open>k\<close> at \<open>a\<close> mirrored the remote byte before the write, it does so after
  it (memset semantics). For registered regions that do not overlap each other this covers
  every region and its whole overlap with the write range.
\<close>

lemma writeMemory_first_region_snapshot:
  assumes wr: "writeMemory rets w dest buf = (Inr r, w')"
    and k: "k < length (regions w)"
    and a: "inside (regions w ! k) a" "dest \<le> a" "a < dest + int (length buf)"
    and first: "\<forall>j<k. \<not> inside (regions w ! j) a"
  shows "remote (regions w' ! k) = remote (regions w ! k)
       \<and> snap_at (regions w' ! k) a = buf ! nat (a - dest)
       \<and> ((\<forall>q. length (calls w) \<le> q \<and> q < length (calls w') \<longrightarrow> nonnull (rets q)) \<longrightarrow>
            r = length buf
            \<and> (mem w a = snap_at (regions w ! k) a \<longrightarrow> mem w' a = snap_at (regions w' ! k) a))"
proof -
  have o: "owner (regions w) a = Some k" by (rule owner_eqI [OF k a(1) first])
  from writeMemory_eff [OF wr] have e: "eff w dest buf w'" .
  then have g: "geom (regions w') = geom (regions w)" by (simp add: eff_def)
  from e k a o have s: "snap_at (regions w' ! k) a = buf ! nat (a - dest)" by (simp add: eff_def)
  from geom_nth [OF g [symmetric], of k] k geom_length [OF g [symmetric]]
  have rm: "remote (regions w' ! k) = remote (regions w ! k)" by simp
  have "r = length buf
        \<and> (mem w a = snap_at (regions w ! k) a \<longrightarrow> mem w' a = snap_at (regions w' ! k) a)"
    if ok: "\<forall>q. length (calls w) \<le> q \<and> q < length (calls w') \<longrightarrow> nonnull (rets q)"
  proof -
    from writeMemory_success [OF wr ok] have r: "r = length buf" and wt: "written w dest buf w'"
      by simp_all
    from wt a(2,3) have d: "mem w' a = buf ! nat (a - dest) \<or>
        (\<exists>k'. owner (regions w) a = Some k' \<and> snap_at (regions w ! k') a = buf ! nat (a - dest) \<and>
              mem w' a = mem w a)"
      by (simp add: written_def)
    have "mem w' a = buf ! nat (a - dest)" if mirror: "mem w a = snap_at (regions w ! k) a"
      using d
    proof
      assume "mem w' a = buf ! nat (a - dest)"
      then show ?thesis .
    next
      assume "\<exists>k'. owner (regions w) a = Some k' \<and> snap_at (regions w ! k') a = buf ! nat (a - dest) \<and>
              mem w' a = mem w a"
      with o have "snap_at (regions w ! k) a = buf ! nat (a - dest)" "mem w' a = mem w a" by auto
      with mirror show ?thesis by simp
    qed
    with r s show ?thesis by simp
  qed
  with rm s show ?thesis by blast
qed

lemma writeMemory_first_region_snapshot_example:
  "\<exists>w'. writeMemory (\<lambda>_. Returned 1)
            \<lparr>regions = [\<lparr>remote = 100, local = [0, 0, 0, 0]\<rparr>], mem = (\<lambda>_. 0), calls = []\<rparr>
            98 [1, 2, 3, 4] = (Inr 4, w')
       \<and> snap_at (regions w' ! 0) 101 = 4 \<and> mem w' 101 = 4"
proof -
  let ?w = "\<lparr>regions = [\<lparr>remote = 100, local = [0, 0, 0, 0 :: byte]\<rparr>], mem = (\<lambda>_. 0 :: byte), calls = []\<rparr>"
  let ?rets = "\<lambda>_ :: nat. Returned 1"
  obtain r w' where f: "writeMemory ?rets ?w 98 [1, 2, 3, 4] = (r, w')"
    by (cases "writeMemory ?rets ?w 98 [1, 2, 3, 4]")
  have "fst (writeMemory ?rets ?w 98 [1, 2, 3, 4]) = Inr 4"
    by (simp add: write_eval)
  with f have r: "writeMemory ?rets ?w 98 [1, 2, 3, 4] = (Inr 4, w')" by simp
  have ok: "\<forall>q. length (calls ?w) \<le> q \<and> q < length (calls w') \<longrightarrow> nonnull (?rets q)"
    by (simp add: nonnull_def)
  have k: "0 < length (regions ?w)" by simp
  have a: "inside (regions ?w ! 0) 101" "(98 :: int) \<le> 101" "(101 :: int) < 98 + int (length [1, 2, 3, 4 :: byte])"
    by (simp_all add: inside_def)
  have first: "\<forall>j<0::nat. \<not> inside (regions ?w ! j) 101" by simp
  have mirror: "mem ?w 101 = snap_at (regions ?w ! 0) 101"
    by (simp add: snap_at_def)
  from writeMemory_first_region_snapshot [OF r k a first] ok mirror
  have "snap_at (regions w' ! 0) 101 = 4 \<and> mem w' 101 = snap_at (regions w' ! 0) 101" by simp
  with r show ?thesis by auto
qed

text \<open>
  Claim C1 (read-only snapshot consistency): for every registered region, after a
  \<open>writeMemory\<close> that overlaps it and completes with every in-thread memset returning
  non-null, the snapshot bytes of the region in the overlap equal the source bytes, and
  the remote bytes equal the snapshot bytes. The code breaks this, and with it the
  documented contract of \<open>ReadOnlyMemory.local\<close> (it always mirrors the remote side), when
  two registered regions cover the same bytes: \<open>findOverlappingRegion\<close> selects the first
  one only. In the run below both regions hold remote address 100 with a zero snapshot
  that mirrors the zero remote bytes; the write of \<open>[1, 1]\<close> to 100 overlaps the second
  region, completes with one non-null memset and returns 2; the remote bytes are 1
  afterwards, the snapshot of the second region is still \<open>[0, 0]\<close>.
\<close>

theorem writeMemory_second_region_stale:
  "overlaps (regions \<lparr>regions = [\<lparr>remote = 100, local = [0, 0]\<rparr>, \<lparr>remote = 100, local = [0, 0]\<rparr>],
                      mem = (\<lambda>_. 0), calls = []\<rparr> ! 1) 100 (length [1, 1 :: byte])
   \<and> fst (writeMemory (\<lambda>_. Returned 1)
            \<lparr>regions = [\<lparr>remote = 100, local = [0, 0]\<rparr>, \<lparr>remote = 100, local = [0, 0]\<rparr>],
             mem = (\<lambda>_. 0), calls = []\<rparr> 100 [1, 1]) = Inr 2
   \<and> calls (snd (writeMemory (\<lambda>_. Returned 1)
            \<lparr>regions = [\<lparr>remote = 100, local = [0, 0]\<rparr>, \<lparr>remote = 100, local = [0, 0]\<rparr>],
             mem = (\<lambda>_. 0), calls = []\<rparr> 100 [1, 1])) = [(100, 1, 2)]
   \<and> nonnull (Returned 1)
   \<and> local (regions (snd (writeMemory (\<lambda>_. Returned 1)
            \<lparr>regions = [\<lparr>remote = 100, local = [0, 0]\<rparr>, \<lparr>remote = 100, local = [0, 0]\<rparr>],
             mem = (\<lambda>_. 0), calls = []\<rparr> 100 [1, 1])) ! 0) = [1, 1]
   \<and> local (regions (snd (writeMemory (\<lambda>_. Returned 1)
            \<lparr>regions = [\<lparr>remote = 100, local = [0, 0]\<rparr>, \<lparr>remote = 100, local = [0, 0]\<rparr>],
             mem = (\<lambda>_. 0), calls = []\<rparr> 100 [1, 1])) ! 1) = [0, 0]
   \<and> mem (snd (writeMemory (\<lambda>_. Returned 1)
            \<lparr>regions = [\<lparr>remote = 100, local = [0, 0]\<rparr>, \<lparr>remote = 100, local = [0, 0]\<rparr>],
             mem = (\<lambda>_. 0), calls = []\<rparr> 100 [1, 1])) 100 = 1
   \<and> mem (snd (writeMemory (\<lambda>_. Returned 1)
            \<lparr>regions = [\<lparr>remote = 100, local = [0, 0]\<rparr>, \<lparr>remote = 100, local = [0, 0]\<rparr>],
             mem = (\<lambda>_. 0), calls = []\<rparr> 100 [1, 1])) 101 = 1"
  by (simp add: write_eval overlaps_def nonnull_def)


subsection \<open>A partially failed snapshot-safe write\<close>

text \<open>
  Claim C10. Let a \<open>writeMemory\<close> overlap the registered region \<open>k\<close> found first, let
  \<open>w1\<close> be the state after the span before the overlap, and let the snapshot-safe span
  return \<open>n2 < overlapLen\<close>, that is, one of its memsets returned null. Then that memset,
  at offset \<open>n2\<close> of the span, is the last call the span issued (the remaining runs are
  skipped), yet after the write the snapshot of region \<open>k\<close> holds the source bytes on the
  entire overlap, while the remote bytes from offset \<open>n2\<close> to the end of the overlap are
  the ones from before the write. At offset \<open>n2\<close> the source byte differs from the old
  snapshot byte, so a snapshot that mirrored the remote byte there no longer does.
\<close>

theorem writeMemory_snapshot_not_atomic:
  assumes ne: "buf \<noteq> []"
    and fnd: "findOverlappingRegion (regions w) dest (length buf) = Some k"
    and goi: "getOverlapInfo dest (length buf) (regions w ! k) = (wo, ol, snap)"
    and B: "(if 0 < wo then writeMemory rets w dest (subarray buf 0 wo) else (Inr 0, w)) = (Inr n1, w1)"
    and S: "writeMemorySafeBuffer rets w1 (dest + int wo) (subarray buf wo (wo + ol)) snap = (Inr n2, w2)"
    and fail: "n2 < ol"
    and wr: "writeMemory rets w dest buf = (Inr r, w')"
  shows "rets (length (calls w2) - 1) = Returned 0
       \<and> length (calls w1) < length (calls w2)
       \<and> (\<exists>len. last (calls w2) = (dest + int wo + int n2, buf ! (wo + n2), len))
       \<and> (\<forall>t<ol. snap_at (regions w' ! k) (dest + int wo + int t) = buf ! (wo + t))
       \<and> (\<forall>t. n2 \<le> t \<and> t < ol \<longrightarrow> mem w' (dest + int wo + int t) = mem w (dest + int wo + int t))
       \<and> snap_at (regions w ! k) (dest + int wo + int n2) \<noteq> buf ! (wo + n2)
       \<and> (mem w (dest + int wo + int n2) = snap_at (regions w ! k) (dest + int wo + int n2) \<longrightarrow>
            mem w' (dest + int wo + int n2) \<noteq> snap_at (regions w' ! k) (dest + int wo + int n2))"
proof -
  from ne have n0: "0 < length buf" by simp
  from findOverlappingRegion_Some [OF fnd]
  have k: "k < length (regions w)" and ov: "overlaps (regions w ! k) dest (length buf)" by simp_all
  note g = getOverlapInfo_facts [OF ov n0 goi]
  let ?od = "subarray buf wo (wo + ol)"
  have lod: "length ?od = ol" using g(3) by (simp add: subarray_def)
  have odn: "?od ! t = buf ! (wo + t)" if "t < ol" for t
    using that g(3) by (simp add: subarray_def)
  obtain n1' w1' n2' w2' n3 where
    B': "(if 0 < wo then writeMemory rets w dest (subarray buf 0 wo) else (Inr 0, w)) = (Inr n1', w1')"
    and S': "writeMemorySafeBuffer rets w1' (dest + int wo) ?od snap = (Inr n2', w2')"
    and A: "(if wo + ol < length buf
        then writeMemory rets (snapshot_updated w2' k ?od (dest + int wo)) (dest + int (wo + ol))
               (drop (wo + ol) buf)
        else (Inr 0, snapshot_updated w2' k ?od (dest + int wo))) = (Inr n3, w')"
    by (rule writeMemory_Some_Inr [OF ne fnd goi wr])
  from B B' have "w1' = w1" by simp
  with S S' have w2: "w2' = w2" by simp
  note fl = writeMemorySafeBuffer_failure [OF S, unfolded lod, OF fail]
  have e1: "eff w dest (subarray buf 0 wo) w1"
  proof (cases "0 < wo")
    case True
    with B writeMemory_eff show ?thesis by simp
  next
    case False
    with B show ?thesis by (simp add: subarray_def eff_refl)
  qed
  have e3: "eff (snapshot_updated w2 k ?od (dest + int wo)) (dest + int (wo + ol)) (drop (wo + ol) buf) w'"
  proof (cases "wo + ol < length buf")
    case True
    with A w2 writeMemory_eff show ?thesis by simp
  next
    case False
    with A w2 show ?thesis by (simp add: eff_refl)
  qed
  from writeMemory_eff [OF wr] have e: "eff w dest buf w'" .
  have snapall: "snap_at (regions w' ! k) (dest + int wo + int t) = buf ! (wo + t)" if t: "t < ol" for t
  proof -
    note gs = getOverlapInfo_snap [OF ov n0 goi t]
    have o: "owner (regions w) (dest + int wo + int t) = Some k"
      using owner_of_found [OF fnd _ gs(3) gs(1)] by simp
    have "nat (dest + int wo + int t - dest) = wo + t" by simp
    with e k gs o show ?thesis by (simp add: eff_def)
  qed
  have memrest: "mem w' (dest + int wo + int t) = mem w (dest + int wo + int t)"
    if t: "n2 \<le> t \<and> t < ol" for t
  proof -
    let ?x = "dest + int wo + int t"
    have "mem w1 ?x = mem w ?x" using e1 g(1) by (simp add: eff_def subarray_def)
    moreover have "mem w2 ?x = mem w1 ?x" using fl(2) [of ?x] t by simp
    moreover have "mem w' ?x = mem w2 ?x" using e3 t by (simp add: eff_def)
    ultimately show ?thesis by simp
  qed
  have old: "snap_at (regions w ! k) (dest + int wo + int n2) \<noteq> buf ! (wo + n2)"
  proof -
    note gs = getOverlapInfo_snap [OF ov n0 goi fail]
    from fl(1) have "?od ! n2 \<noteq> snap ! n2" using fail g(4) by (auto simp: nth_opt_def)
    with gs(2) odn [OF fail] show ?thesis by simp
  qed
  have lastc: "\<exists>len. last (calls w2) = (dest + int wo + int n2, buf ! (wo + n2), len)"
    using fl(4) odn [OF fail] by simp
  have "mem w' (dest + int wo + int n2) \<noteq> snap_at (regions w' ! k) (dest + int wo + int n2)"
    if "mem w (dest + int wo + int n2) = snap_at (regions w ! k) (dest + int wo + int n2)"
    using that old snapall [OF fail] memrest [of n2] fail by simp
  with fl(5) fl(3) lastc snapall memrest old show ?thesis by blast
qed
theorem writeMemory_snapshot_not_atomic_witness:
  "\<exists>w'. writeMemory (\<lambda>n. if n = 1 then Returned 0 else Returned 1)
            \<lparr>regions = [\<lparr>remote = 100, local = [0, 0, 0, 0]\<rparr>], mem = (\<lambda>_. 0), calls = []\<rparr>
            100 [5, 5, 6, 6] = (Inr 2, w')
       \<and> snap_at (regions w' ! 0) 102 = 6 \<and> mem w' 102 = 0
       \<and> snap_at (regions w' ! 0) 103 = 6 \<and> mem w' 103 = 0"
proof -
  let ?w = "\<lparr>regions = [\<lparr>remote = 100, local = [0, 0, 0, 0 :: byte]\<rparr>], mem = (\<lambda>_. 0 :: byte), calls = []\<rparr>"
  let ?rets = "\<lambda>n :: nat. if n = 1 then Returned 0 else Returned 1"
  let ?buf = "[5, 5, 6, 6 :: byte]"
  obtain r w' where f: "writeMemory ?rets ?w 100 ?buf = (r, w')"
    by (cases "writeMemory ?rets ?w 100 ?buf")
  have "fst (writeMemory ?rets ?w 100 ?buf) = Inr 2"
    by (simp add: write_eval)
  with f have wr: "writeMemory ?rets ?w 100 ?buf = (Inr 2, w')" by simp
  obtain s w2 where g: "writeMemorySafeBuffer ?rets ?w (100 + int 0) (subarray ?buf 0 (0 + 4)) [0, 0, 0, 0] = (s, w2)"
    by (cases "writeMemorySafeBuffer ?rets ?w (100 + int 0) (subarray ?buf 0 (0 + 4)) [0, 0, 0, 0]")
  have "fst (writeMemorySafeBuffer ?rets ?w (100 + int 0) (subarray ?buf 0 (0 + 4)) [0, 0, 0, 0]) = Inr 2"
    by (simp add: write_eval)
  with g have S: "writeMemorySafeBuffer ?rets ?w (100 + int 0) (subarray ?buf 0 (0 + 4)) [0, 0, 0, 0] = (Inr 2, w2)"
    by simp
  have ne: "?buf \<noteq> []" by simp
  have fnd: "findOverlappingRegion (regions ?w) 100 (length ?buf) = Some 0" by simp
  have goi: "getOverlapInfo 100 (length ?buf) (regions ?w ! 0) = (0, 4, [0, 0, 0, 0])"
    by (simp add: getOverlapInfo_def subarray_def)
  have B: "(if 0 < (0 :: nat) then writeMemory ?rets ?w 100 (subarray ?buf 0 0) else (Inr 0, ?w)) = (Inr 0, ?w)"
    by simp
  have fail: "(2 :: nat) < 4" by simp
  from writeMemory_snapshot_not_atomic [OF ne fnd goi B S fail wr]
  have 1: "\<forall>t<4. snap_at (regions w' ! 0) (100 + int 0 + int t) = ?buf ! (0 + t)"
    and 2: "\<forall>t. 2 \<le> t \<and> t < 4 \<longrightarrow> mem w' (100 + int 0 + int t) = mem ?w (100 + int 0 + int t)"
    by blast+
  from 1 [rule_format, of 2] 1 [rule_format, of 3] 2 [rule_format, of 2] 2 [rule_format, of 3]
  have "snap_at (regions w' ! 0) 102 = 6 \<and> mem w' 102 = 0
       \<and> snap_at (regions w' ! 0) 103 = 6 \<and> mem w' 103 = 0" by simp
  with wr show ?thesis by blast
qed

section \<open>Zone heap allocator (src/memory/heap.ts)\<close>

subsection \<open>Numbers\<close>

text \<open>
  Sizes and offsets are JavaScript numbers, that is IEEE 754 doubles, holding byte counts.
  The model has the integers among them. A sum or a difference of two numbers is the
  exact result rounded to the nearest double, ties to even: an integer below \<open>2^53\<close> in
  magnitude is a double, and a larger one is rounded to 53 significant bits. The exponent
  range of a double is not modelled (a magnitude of \<open>2^1024\<close> or more is \<open>Infinity\<close> in
  JavaScript). Addresses are \<open>bigint\<close> values, exact integers; \<open>Number(b)\<close> rounds a
  \<open>bigint\<close> in the same way and \<open>BigInt(n)\<close> of an integral number is exact.
\<close>

function bitlen :: "nat \<Rightarrow> nat" where
  "bitlen n = (if n = 0 then 0 else Suc (bitlen (n div 2)))"
  by pat_completeness auto
termination
  by (relation "measure id") auto

declare bitlen.simps [simp del]

definition round53 :: "nat \<Rightarrow> nat" where
  "round53 n =
     (if n < 2 ^ 53 then n
      else let q = 2 ^ (bitlen n - 53); d = n div q; r = n mod q
           in (if 2 * r < q \<or> (2 * r = q \<and> even d) then d else d + 1) * q)"

definition toDouble :: "int \<Rightarrow> int" where
  "toDouble x = sgn x * int (round53 (nat \<bar>x\<bar>))"

definition num_add :: "int \<Rightarrow> int \<Rightarrow> int" where
  "num_add a b = toDouble (a + b)"

definition num_sub :: "int \<Rightarrow> int \<Rightarrow> int" where
  "num_sub a b = toDouble (a - b)"

subsection \<open>The heap\<close>

text \<open>
  A free block and an allocation are the objects of the source; field names that clash
  with constants of HOL or with the fields of a region carry a suffix.
\<close>

record FreeBlock =
  offset :: int
  size_fb :: int

record HeapAlloc =
  remote_ha :: int
  size_ha :: int

record Heap =
  base :: int
  totalSize :: int
  roSize :: int
  rwSize :: int
  romem :: ReadOnlyMemory
  roOffset :: int
  rwOffset :: int
  roFreeList :: "FreeBlock list"
  rwFreeList :: "FreeBlock list"

datatype HeapError =
    InvalidHeapSizes int int
  | CallocReturnedNull int
  | BufferAllocFailed int
  | InvalidAllocSize int
  | ReadonlyZoneExhausted int
  | ReadWriteZoneExhausted int
  | DoesNotBelong int
  | CallFailed NThreadError

text \<open>
  \<open>Heap.create\<close>: the outcome of the in-thread \<open>calloc(1, totalSize)\<close> is a parameter, and
  so is \<open>maxLength\<close>, the largest size that \<open>Buffer.alloc\<close> accepts on the platform
  (\<open>buffer.constants.MAX_LENGTH\<close>); a larger size makes it throw. The \<open>romem\<close> field is the
  region handed to \<open>registerReadOnlyMemory\<close>: the base address with a zero-filled snapshot
  of the readonly zone. Halving a double is exact, so \<open>Math.floor(totalSize / 2)\<close> is
  integer division.
\<close>

definition Heap_create :: "call_result \<Rightarrow> int \<Rightarrow> int \<Rightarrow> int option \<Rightarrow> HeapError + Heap" where
  "Heap_create callocResult maxLength totalSize' roSize' =
     (let actualRoSize = (case roSize' of Some r \<Rightarrow> r | None \<Rightarrow> totalSize' div 2);
          rwSize' = num_sub totalSize' actualRoSize
      in if actualRoSize < 0 \<or> rwSize' < 0 then Inl (InvalidHeapSizes actualRoSize rwSize')
         else case callocResult of
                Threw e \<Rightarrow> Inl (CallFailed e)
              | Returned b \<Rightarrow>
                  if b = 0 then Inl (CallocReturnedNull totalSize')
                  else if actualRoSize > maxLength then Inl (BufferAllocFailed actualRoSize)
                  else Inr \<lparr>base = b, totalSize = totalSize', roSize = actualRoSize, rwSize = rwSize',
                            romem = \<lparr>remote = b, local = replicate (nat actualRoSize) 0\<rparr>,
                            roOffset = 0, rwOffset = 0, roFreeList = [], rwFreeList = []\<rparr>)"

text \<open>First-fit search: the index of the first block that is large enough, or \<open>-1\<close>.\<close>

fun findFreeBlock_from :: "FreeBlock list \<Rightarrow> int \<Rightarrow> nat \<Rightarrow> int" where
  "findFreeBlock_from [] sz i = - 1"
| "findFreeBlock_from (b # bs) sz i =
     (if size_fb b \<ge> sz then int i else findFreeBlock_from bs sz (Suc i))"

definition findFreeBlock :: "FreeBlock list \<Rightarrow> int \<Rightarrow> int" where
  "findFreeBlock freeList sz = findFreeBlock_from freeList sz 0"

text \<open>\<open>freeList.splice(index, 1)\<close> and \<open>freeList.splice(index, 0, b)\<close>.\<close>

definition splice_remove :: "'a list \<Rightarrow> nat \<Rightarrow> 'a list" where
  "splice_remove xs i = take i xs @ drop (Suc i) xs"

definition splice_insert :: "'a list \<Rightarrow> nat \<Rightarrow> 'a \<Rightarrow> 'a list" where
  "splice_insert xs i x = take i xs @ x # drop i xs"

definition splitFreeBlock :: "FreeBlock list \<Rightarrow> nat \<Rightarrow> int \<Rightarrow> int \<times> FreeBlock list" where
  "splitFreeBlock freeList index sz =
     (let block = freeList ! index;
          off = offset block;
          remainder = num_sub (size_fb block) sz
      in if remainder > 0
         then (off, freeList[index := block\<lparr>offset := num_add (offset block) sz,
                                            size_fb := remainder\<rparr>])
         else (off, splice_remove freeList index))"

text \<open>The search loop of \<open>insertAndCoalesce\<close> for the insertion point.\<close>

fun findInsertIdx :: "FreeBlock list \<Rightarrow> int \<Rightarrow> nat" where
  "findInsertIdx [] off = 0"
| "findInsertIdx (b # bs) off = (if offset b < off then Suc (findInsertIdx bs off) else 0)"

definition mergeNext :: "FreeBlock list \<Rightarrow> nat \<Rightarrow> FreeBlock list" where
  "mergeNext freeList insertIdx =
     (if insertIdx + 1 < length freeList then
        (let curr = freeList ! insertIdx; next = freeList ! (insertIdx + 1)
         in if num_add (offset curr) (size_fb curr) = offset next
            then splice_remove
                   (freeList[insertIdx := curr\<lparr>size_fb := num_add (size_fb curr) (size_fb next)\<rparr>])
                   (insertIdx + 1)
            else freeList)
      else freeList)"

definition mergePrev :: "FreeBlock list \<Rightarrow> nat \<Rightarrow> FreeBlock list" where
  "mergePrev freeList insertIdx =
     (if insertIdx > 0 then
        (let prev = freeList ! (insertIdx - 1); curr = freeList ! insertIdx
         in if num_add (offset prev) (size_fb prev) = offset curr
            then splice_remove
                   (freeList[insertIdx - 1 := prev\<lparr>size_fb := num_add (size_fb prev) (size_fb curr)\<rparr>])
                   insertIdx
            else freeList)
      else freeList)"

definition insertAndCoalesce :: "FreeBlock list \<Rightarrow> int \<Rightarrow> int \<Rightarrow> FreeBlock list" where
  "insertAndCoalesce freeList off sz =
     (let insertIdx = findInsertIdx freeList off;
          inserted = splice_insert freeList insertIdx \<lparr>offset = off, size_fb = sz\<rparr>
      in mergePrev (mergeNext inserted insertIdx) insertIdx)"

definition allocReadonly :: "Heap \<Rightarrow> int \<Rightarrow> HeapError + (HeapAlloc \<times> Heap)" where
  "allocReadonly h sz =
     (if sz \<le> 0 then Inl (InvalidAllocSize sz)
      else
        (let freeIdx = findFreeBlock (roFreeList h) sz
         in if freeIdx \<noteq> - 1 then
              (case splitFreeBlock (roFreeList h) (nat freeIdx) sz of
                 (off, fl) \<Rightarrow>
                   Inr (\<lparr>remote_ha = base h + off, size_ha = sz\<rparr>, h\<lparr>roFreeList := fl\<rparr>))
            else if num_add (roOffset h) sz > roSize h then Inl (ReadonlyZoneExhausted sz)
            else Inr (\<lparr>remote_ha = base h + roOffset h, size_ha = sz\<rparr>,
                      h\<lparr>roOffset := num_add (roOffset h) sz\<rparr>)))"

definition alloc :: "Heap \<Rightarrow> int \<Rightarrow> HeapError + (HeapAlloc \<times> Heap)" where
  "alloc h sz =
     (if sz \<le> 0 then Inl (InvalidAllocSize sz)
      else
        (let freeIdx = findFreeBlock (rwFreeList h) sz
         in if freeIdx \<noteq> - 1 then
              (case splitFreeBlock (rwFreeList h) (nat freeIdx) sz of
                 (off, fl) \<Rightarrow>
                   Inr (\<lparr>remote_ha = base h + roSize h + off, size_ha = sz\<rparr>, h\<lparr>rwFreeList := fl\<rparr>))
            else if num_add (rwOffset h) sz > rwSize h then Inl (ReadWriteZoneExhausted sz)
            else Inr (\<lparr>remote_ha = base h + (roSize h + rwOffset h), size_ha = sz\<rparr>,
                      h\<lparr>rwOffset := num_add (rwOffset h) sz\<rparr>)))"

definition free :: "Heap \<Rightarrow> HeapAlloc \<Rightarrow> HeapError + Heap" where
  "free h a =
     (let addr = remote_ha a;
          baseAddr = base h;
          roEnd = baseAddr + roSize h;
          rwEnd = roEnd + rwSize h
      in if addr \<ge> baseAddr \<and> addr < roEnd
         then Inr (h\<lparr>roFreeList :=
                      insertAndCoalesce (roFreeList h) (toDouble (addr - baseAddr)) (size_ha a)\<rparr>)
         else if addr \<ge> roEnd \<and> addr < rwEnd
         then Inr (h\<lparr>rwFreeList :=
                      insertAndCoalesce (rwFreeList h) (toDouble (addr - roEnd)) (size_ha a)\<rparr>)
         else Inl (DoesNotBelong addr))"

subsection \<open>Sequences of heap operations\<close>

text \<open>
  A client holds the allocations it was given and has not freed yet (\<open>live\<close>). An
  allocation that throws leaves the heap as it was. A \<open>free\<close> of a block that is not
  live (never returned by this heap, or freed already) is outside the protocol of the
  claim: the run is \<open>None\<close>.
\<close>

datatype heap_op = OpAlloc int | OpAllocReadonly int | OpFree HeapAlloc

fun heap_step :: "Heap \<times> HeapAlloc list \<Rightarrow> heap_op \<Rightarrow> (Heap \<times> HeapAlloc list) option" where
  "heap_step (h, live) (OpAlloc sz) =
     (case alloc h sz of Inl e \<Rightarrow> Some (h, live) | Inr (a, h') \<Rightarrow> Some (h', a # live))"
| "heap_step (h, live) (OpAllocReadonly sz) =
     (case allocReadonly h sz of Inl e \<Rightarrow> Some (h, live) | Inr (a, h') \<Rightarrow> Some (h', a # live))"
| "heap_step (h, live) (OpFree a) =
     (if a \<in> set live
      then (case free h a of Inl e \<Rightarrow> Some (h, live) | Inr h' \<Rightarrow> Some (h', remove1 a live))
      else None)"

fun heap_run :: "Heap \<times> HeapAlloc list \<Rightarrow> heap_op list \<Rightarrow> (Heap \<times> HeapAlloc list) option" where
  "heap_run s [] = Some s"
| "heap_run s (op # ops) = (case heap_step s op of None \<Rightarrow> None | Some s' \<Rightarrow> heap_run s' ops)"

subsection \<open>The operations in exact arithmetic\<close>

text \<open>
  The same operations with exact integer sums and differences in place of the rounded
  ones. They are not code of the heap: the invariant is proved for them, and the
  operations of the heap are shown to agree with them as long as the zones are smaller
  than \<open>2^53\<close> bytes.
\<close>

definition splitFreeBlock_exact :: "FreeBlock list \<Rightarrow> nat \<Rightarrow> int \<Rightarrow> int \<times> FreeBlock list" where
  "splitFreeBlock_exact freeList index sz =
     (let block = freeList ! index;
          off = offset block;
          remainder = size_fb block - sz
      in if remainder > 0
         then (off, freeList[index := block\<lparr>offset := offset block + sz, size_fb := remainder\<rparr>])
         else (off, splice_remove freeList index))"

definition mergeNext_exact :: "FreeBlock list \<Rightarrow> nat \<Rightarrow> FreeBlock list" where
  "mergeNext_exact freeList insertIdx =
     (if insertIdx + 1 < length freeList then
        (let curr = freeList ! insertIdx; next = freeList ! (insertIdx + 1)
         in if offset curr + size_fb curr = offset next
            then splice_remove (freeList[insertIdx := curr\<lparr>size_fb := size_fb curr + size_fb next\<rparr>])
                   (insertIdx + 1)
            else freeList)
      else freeList)"

definition mergePrev_exact :: "FreeBlock list \<Rightarrow> nat \<Rightarrow> FreeBlock list" where
  "mergePrev_exact freeList insertIdx =
     (if insertIdx > 0 then
        (let prev = freeList ! (insertIdx - 1); curr = freeList ! insertIdx
         in if offset prev + size_fb prev = offset curr
            then splice_remove (freeList[insertIdx - 1 := prev\<lparr>size_fb := size_fb prev + size_fb curr\<rparr>])
                   insertIdx
            else freeList)
      else freeList)"

definition insertAndCoalesce_exact :: "FreeBlock list \<Rightarrow> int \<Rightarrow> int \<Rightarrow> FreeBlock list" where
  "insertAndCoalesce_exact freeList off sz =
     (let insertIdx = findInsertIdx freeList off;
          inserted = splice_insert freeList insertIdx \<lparr>offset = off, size_fb = sz\<rparr>
      in mergePrev_exact (mergeNext_exact inserted insertIdx) insertIdx)"

definition allocReadonly_exact :: "Heap \<Rightarrow> int \<Rightarrow> HeapError + (HeapAlloc \<times> Heap)" where
  "allocReadonly_exact h sz =
     (if sz \<le> 0 then Inl (InvalidAllocSize sz)
      else
        (let freeIdx = findFreeBlock (roFreeList h) sz
         in if freeIdx \<noteq> - 1 then
              (case splitFreeBlock_exact (roFreeList h) (nat freeIdx) sz of
                 (off, fl) \<Rightarrow>
                   Inr (\<lparr>remote_ha = base h + off, size_ha = sz\<rparr>, h\<lparr>roFreeList := fl\<rparr>))
            else if roOffset h + sz > roSize h then Inl (ReadonlyZoneExhausted sz)
            else Inr (\<lparr>remote_ha = base h + roOffset h, size_ha = sz\<rparr>,
                      h\<lparr>roOffset := roOffset h + sz\<rparr>)))"

definition alloc_exact :: "Heap \<Rightarrow> int \<Rightarrow> HeapError + (HeapAlloc \<times> Heap)" where
  "alloc_exact h sz =
     (if sz \<le> 0 then Inl (InvalidAllocSize sz)
      else
        (let freeIdx = findFreeBlock (rwFreeList h) sz
         in if freeIdx \<noteq> - 1 then
              (case splitFreeBlock_exact (rwFreeList h) (nat freeIdx) sz of
                 (off, fl) \<Rightarrow>
                   Inr (\<lparr>remote_ha = base h + roSize h + off, size_ha = sz\<rparr>, h\<lparr>rwFreeList := fl\<rparr>))
            else if rwOffset h + sz > rwSize h then Inl (ReadWriteZoneExhausted sz)
            else Inr (\<lparr>remote_ha = base h + (roSize h + rwOffset h), size_ha = sz\<rparr>,
                      h\<lparr>rwOffset := rwOffset h + sz\<rparr>)))"

definition free_exact :: "Heap \<Rightarrow> HeapAlloc \<Rightarrow> HeapError + Heap" where
  "free_exact h a =
     (let addr = remote_ha a;
          baseAddr = base h;
          roEnd = baseAddr + roSize h;
          rwEnd = roEnd + rwSize h
      in if addr \<ge> baseAddr \<and> addr < roEnd
         then Inr (h\<lparr>roFreeList := insertAndCoalesce_exact (roFreeList h) (addr - baseAddr) (size_ha a)\<rparr>)
         else if addr \<ge> roEnd \<and> addr < rwEnd
         then Inr (h\<lparr>rwFreeList := insertAndCoalesce_exact (rwFreeList h) (addr - roEnd) (size_ha a)\<rparr>)
         else Inl (DoesNotBelong addr))"

fun heap_step_exact :: "Heap \<times> HeapAlloc list \<Rightarrow> heap_op \<Rightarrow> (Heap \<times> HeapAlloc list) option" where
  "heap_step_exact (h, live) (OpAlloc sz) =
     (case alloc_exact h sz of Inl e \<Rightarrow> Some (h, live) | Inr (a, h') \<Rightarrow> Some (h', a # live))"
| "heap_step_exact (h, live) (OpAllocReadonly sz) =
     (case allocReadonly_exact h sz of Inl e \<Rightarrow> Some (h, live) | Inr (a, h') \<Rightarrow> Some (h', a # live))"
| "heap_step_exact (h, live) (OpFree a) =
     (if a \<in> set live
      then (case free_exact h a of Inl e \<Rightarrow> Some (h, live) | Inr h' \<Rightarrow> Some (h', remove1 a live))
      else None)"

fun heap_run_exact :: "Heap \<times> HeapAlloc list \<Rightarrow> heap_op list \<Rightarrow> (Heap \<times> HeapAlloc list) option" where
  "heap_run_exact s [] = Some s"
| "heap_run_exact s (op # ops) = (case heap_step_exact s op of None \<Rightarrow> None | Some s' \<Rightarrow> heap_run_exact s' ops)"

subsection \<open>Free lists as sets of offsets\<close>

definition cover :: "FreeBlock list \<Rightarrow> int set" where
  "cover fl = (\<Union>b\<in>set fl. {offset b ..< offset b + size_fb b})"

definition gap_before :: "FreeBlock \<Rightarrow> FreeBlock \<Rightarrow> bool" where
  "gap_before a b = (offset a + size_fb a < offset b)"

definition fl_ok :: "FreeBlock list \<Rightarrow> bool" where
  "fl_ok fl \<longleftrightarrow> (\<forall>b\<in>set fl. 0 < size_fb b) \<and> sorted_wrt gap_before fl"

lemma cover_simps [simp]:
  "cover [] = {}"
  "cover (b # bs) = {offset b ..< offset b + size_fb b} \<union> cover bs"
  "cover (xs @ ys) = cover xs \<union> cover ys"
  by (auto simp: cover_def)

lemma fl_ok_Nil [simp]: "fl_ok []"
  by (simp add: fl_ok_def)

lemma fl_ok_Cons:
  "fl_ok (b # bs) \<longleftrightarrow> 0 < size_fb b \<and> (\<forall>c\<in>set bs. gap_before b c) \<and> fl_ok bs"
  by (auto simp: fl_ok_def)

lemma fl_ok_append:
  "fl_ok (xs @ ys) \<longleftrightarrow> fl_ok xs \<and> fl_ok ys \<and> (\<forall>a\<in>set xs. \<forall>b\<in>set ys. gap_before a b)"
  by (auto simp: fl_ok_def sorted_wrt_append)

lemma fl_ok_cover_after:
  "fl_ok (b # bs) \<Longrightarrow> x \<in> cover bs \<Longrightarrow> offset b + size_fb b < x"
  by (auto simp: fl_ok_Cons cover_def gap_before_def)

lemma fl_ok_sorted_no_adjacent:
  assumes "fl_ok fl"
  shows "sorted_wrt (\<lambda>a b. offset a < offset b) fl"
    and "\<forall>a\<in>set fl. \<forall>b\<in>set fl. offset a + size_fb a \<noteq> offset b"
proof -
  from assms have pos: "\<forall>b\<in>set fl. 0 < size_fb b" and srt: "sorted_wrt gap_before fl"
    by (simp_all add: fl_ok_def)
  show "sorted_wrt (\<lambda>a b. offset a < offset b) fl"
  proof (rule sorted_wrt_mono_rel [OF _ srt])
    fix x y assume "x \<in> set fl" "gap_before x y"
    with pos show "offset x < offset y" by (auto simp: gap_before_def)
  qed
  from assms show "\<forall>a\<in>set fl. \<forall>b\<in>set fl. offset a + size_fb a \<noteq> offset b"
  proof (induction fl)
    case Nil
    show ?case by simp
  next
    case (Cons c cs)
    then have c: "0 < size_fb c" and g: "\<forall>d\<in>set cs. offset c + size_fb c < offset d"
      and ok: "fl_ok cs" by (simp_all add: fl_ok_Cons gap_before_def)
    from ok have p: "\<forall>d\<in>set cs. 0 < size_fb d" by (simp add: fl_ok_def)
    note ih = Cons.IH [OF ok]
    show ?case
    proof (intro ballI)
      fix a b assume a: "a \<in> set (c # cs)" and b: "b \<in> set (c # cs)"
      consider "a = c" "b = c" | "a = c" "b \<in> set cs" | "a \<in> set cs" "b = c" | "a \<in> set cs" "b \<in> set cs"
        using a b by auto
      then show "offset a + size_fb a \<noteq> offset b"
      proof cases
        case 1
        with c show ?thesis by simp
      next
        case 2
        with g show ?thesis by auto
      next
        case 3
        with g p c have "offset c + size_fb c < offset a" "0 < size_fb a" by auto
        with 3 c show ?thesis by simp
      next
        case 4
        with ih show ?thesis by blast
      qed
    qed
  qed
qed

subsection \<open>insertAndCoalesce_exact\<close>

lemma findInsertIdx_append:
  assumes "\<forall>b\<in>set pre. offset b < off" and "post = [] \<or> \<not> offset (hd post) < off"
  shows "findInsertIdx (pre @ post) off = length pre"
  using assms
proof (induction pre)
  case Nil
  then show ?case by (cases post) auto
next
  case (Cons a pre)
  then show ?case by simp
qed

lemma splice_insert_append: "splice_insert (pre @ post) (length pre) x = pre @ x # post"
  by (simp add: splice_insert_def)

lemma mergeNext_Nil: "mergeNext_exact (pre @ [x]) (length pre) = pre @ [x]"
  by (simp add: mergeNext_exact_def)

lemma mergeNext_Cons:
  "mergeNext_exact (pre @ x # n # ps) (length pre) =
     (if offset x + size_fb x = offset n
      then pre @ x\<lparr>size_fb := size_fb x + size_fb n\<rparr> # ps else pre @ x # n # ps)"
  by (simp add: mergeNext_exact_def Let_def splice_remove_def nth_append)

lemma mergePrev_Nil: "mergePrev_exact (c # rest) 0 = c # rest"
  by (simp add: mergePrev_exact_def)

lemma mergePrev_snoc:
  "mergePrev_exact (pre @ p # c # rest) (Suc (length pre)) =
     (if offset p + size_fb p = offset c
      then pre @ p\<lparr>size_fb := size_fb p + size_fb c\<rparr> # rest else pre @ p # c # rest)"
proof -
  have 1: "(pre @ p # c # rest) ! length pre = p" by simp
  have 2: "(pre @ p # c # rest) ! Suc (length pre) = c"
    by (metis append.assoc append_Cons append_Nil length_append_singleton nth_append_length)
  have 3: "(pre @ p # c # rest)[length pre := q] = pre @ q # c # rest" for q by simp
  have 4: "splice_remove (pre @ q # c # rest) (Suc (length pre)) = pre @ q # rest" for q
  proof -
    have "take (Suc (length pre)) (pre @ q # c # rest) = pre @ [q]" by simp
    moreover have "drop (Suc (Suc (length pre))) (pre @ q # c # rest) = rest" by simp
    ultimately show ?thesis by (simp add: splice_remove_def)
  qed
  show ?thesis by (simp add: mergePrev_exact_def Let_def 1 2 3 4 del: nth_append_length)
qed

lemma cover_less:
  "x \<in> cover fl \<Longrightarrow> \<exists>b\<in>set fl. offset b \<le> x \<and> x < offset b + size_fb b"
  by (auto simp: cover_def)

lemma mergeNext_ok:
  assumes ok: "fl_ok post" and s: "0 < sz" and st: "\<forall>b\<in>set post. off + sz \<le> offset b"
  shows "\<exists>c rest. mergeNext_exact (pre @ \<lparr>offset = off, size_fb = sz\<rparr> # post) (length pre) = pre @ c # rest \<and>
           offset c = off \<and> fl_ok (c # rest) \<and> cover (c # rest) = {off ..< off + sz} \<union> cover post"
proof (cases post)
  case Nil
  with s show ?thesis by (simp add: mergeNext_Nil fl_ok_Cons)
next
  case (Cons n ps)
  let ?x = "\<lparr>offset = off, size_fb = sz\<rparr>"
  from ok Cons have n: "0 < size_fb n" and g: "\<forall>c\<in>set ps. gap_before n c" and okps: "fl_ok ps"
    by (simp_all add: fl_ok_Cons)
  from st Cons have sn: "off + sz \<le> offset n" by simp
  show ?thesis
  proof (cases "off + sz = offset n")
    case True
    let ?c = "?x\<lparr>size_fb := size_fb ?x + size_fb n\<rparr>"
    have m: "mergeNext_exact (pre @ ?x # post) (length pre) = pre @ ?c # ps"
      using True by (simp add: Cons mergeNext_Cons)
    have "fl_ok (?c # ps)"
      using n s g okps True by (auto simp: fl_ok_Cons gap_before_def)
    moreover have "cover (?c # ps) = {off ..< off + sz} \<union> cover post"
      using True n s by (auto simp: Cons)
    ultimately show ?thesis using m by (intro exI [of _ ?c] exI [of _ ps]) simp
  next
    case False
    have m: "mergeNext_exact (pre @ ?x # post) (length pre) = pre @ ?x # post"
      using False by (simp add: Cons mergeNext_Cons)
    have "\<forall>b\<in>set post. gap_before ?x b"
    proof
      fix b assume b: "b \<in> set post"
      show "gap_before ?x b"
      proof (cases "b = n")
        case True
        with sn False show ?thesis by (simp add: gap_before_def)
      next
        case F: False
        with b Cons g have "gap_before n b" by simp
        with sn n show ?thesis by (simp add: gap_before_def)
      qed
    qed
    with ok s have "fl_ok (?x # post)" by (simp add: fl_ok_Cons)
    with m show ?thesis by (intro exI [of _ ?x] exI [of _ post]) simp
  qed
qed

lemma mergePrev_ok:
  assumes okp: "fl_ok pre" and okc: "fl_ok (c # rest)"
    and en: "\<forall>b\<in>set pre. offset b + size_fb b \<le> offset c"
  shows "fl_ok (mergePrev_exact (pre @ c # rest) (length pre)) \<and>
         cover (mergePrev_exact (pre @ c # rest) (length pre)) = cover pre \<union> cover (c # rest)"
proof (cases pre rule: rev_cases)
  case Nil
  with okc show ?thesis by (simp add: mergePrev_Nil)
next
  case (snoc pre' p)
  from okc have c: "0 < size_fb c" and gc: "\<forall>r\<in>set rest. gap_before c r" and okr: "fl_ok rest"
    by (simp_all add: fl_ok_Cons)
  from okp snoc have okp': "fl_ok pre'" and p: "0 < size_fb p" and gp: "\<forall>a\<in>set pre'. gap_before a p"
    by (auto simp: fl_ok_append fl_ok_Cons)
  from en snoc have ep: "offset p + size_fb p \<le> offset c" by simp
  have far: "gap_before a r" if "a \<in> set pre' \<or> a = p" "r \<in> set rest" for a r
  proof -
    from that(1) gp p have "offset a + size_fb a \<le> offset p + size_fb p"
      by (auto simp: gap_before_def)
    with ep c gc that(2) show ?thesis by (auto simp: gap_before_def)
  qed
  have e: "mergePrev_exact (pre @ c # rest) (length pre) =
      (if offset p + size_fb p = offset c
       then pre' @ p\<lparr>size_fb := size_fb p + size_fb c\<rparr> # rest else pre' @ p # c # rest)"
    using mergePrev_snoc [of pre' p c rest] by (simp add: snoc)
  show ?thesis
  proof (cases "offset p + size_fb p = offset c")
    case True
    let ?m = "p\<lparr>size_fb := size_fb p + size_fb c\<rparr>"
    have "fl_ok (pre' @ ?m # rest)"
      using okp' okr p c gp gc far True
      by (auto simp: fl_ok_append fl_ok_Cons gap_before_def)
    moreover have "cover (pre' @ ?m # rest) = cover pre \<union> cover (c # rest)"
      using True p c by (auto simp: snoc)
    ultimately show ?thesis using e True by simp
  next
    case False
    with ep have "gap_before p c" by (simp add: gap_before_def)
    then have "fl_ok (pre' @ p # c # rest)"
      using okp' okr p c gp gc far
      by (auto simp: fl_ok_append fl_ok_Cons gap_before_def)
    with e False show ?thesis by (auto simp: snoc)
  qed
qed

lemma insertAndCoalesce_ok:
  assumes ok: "fl_ok fl" and s: "0 < sz" and dis: "{off ..< off + sz} \<inter> cover fl = {}"
  shows "fl_ok (insertAndCoalesce_exact fl off sz)"
    and "cover (insertAndCoalesce_exact fl off sz) = cover fl \<union> {off ..< off + sz}"
proof -
  define pre where "pre = takeWhile (\<lambda>b. offset b < off) fl"
  define post where "post = dropWhile (\<lambda>b. offset b < off) fl"
  have fl: "fl = pre @ post" by (simp add: pre_def post_def)
  have preP: "\<forall>b\<in>set pre. offset b < off"
    unfolding pre_def by (meson set_takeWhileD)
  have postP: "post = [] \<or> \<not> offset (hd post) < off"
    unfolding post_def by (metis (mono_tags, lifting) hd_dropWhile)
  from ok fl have okpre: "fl_ok pre" and okpost: "fl_ok post" by (simp_all add: fl_ok_append)
  from ok have pos: "\<forall>b\<in>set fl. 0 < size_fb b" by (simp add: fl_ok_def)
  have nin: False
    if "b \<in> set fl" "off \<le> x" "x < off + sz" "offset b \<le> x" "x < offset b + size_fb b" for b x
  proof -
    from that have "x \<in> {off ..< off + sz} \<inter> cover fl" by (auto simp: cover_def)
    with dis show False by simp
  qed
  have pre_end: "\<forall>b\<in>set pre. offset b + size_fb b \<le> off"
  proof
    fix b assume b: "b \<in> set pre"
    then have "b \<in> set fl" by (simp add: fl)
    from nin [OF this, of off] s preP b show "offset b + size_fb b \<le> off" by force
  qed
  have post_start: "\<forall>b\<in>set post. off + sz \<le> offset b"
  proof
    fix b assume b: "b \<in> set post"
    then have bf: "b \<in> set fl" by (simp add: fl)
    from b obtain n ps where np: "post = n # ps" by (cases post) auto
    with postP have n: "off \<le> offset n" by simp
    have "off \<le> offset b"
    proof (cases "b = n")
      case True
      with n show ?thesis by simp
    next
      case False
      with b np have "b \<in> set ps" by simp
      with okpost np have "gap_before n b" by (simp add: fl_ok_Cons)
      moreover from okpost np have "0 < size_fb n" by (simp add: fl_ok_Cons)
      ultimately show ?thesis using n by (simp add: gap_before_def)
    qed
    moreover have "0 < size_fb b" using pos bf by simp
    ultimately show "off + sz \<le> offset b" using nin [OF bf, of "offset b"] by force
  qed
  have idx: "findInsertIdx fl off = length pre"
    unfolding fl by (rule findInsertIdx_append [OF preP postP])
  let ?x = "\<lparr>offset = off, size_fb = sz\<rparr>"
  from mergeNext_ok [OF okpost s post_start, of pre] obtain c rest where
    mn: "mergeNext_exact (pre @ ?x # post) (length pre) = pre @ c # rest"
    and oc: "offset c = off" and okc: "fl_ok (c # rest)"
    and cc: "cover (c # rest) = {off ..< off + sz} \<union> cover post" by blast
  have e: "insertAndCoalesce_exact fl off sz = mergePrev_exact (pre @ c # rest) (length pre)"
    by (simp add: insertAndCoalesce_exact_def Let_def idx) (simp add: fl splice_insert_append mn)
  from pre_end oc have en: "\<forall>b\<in>set pre. offset b + size_fb b \<le> offset c" by simp
  note mp = mergePrev_ok [OF okpre okc en]
  from mp e show "fl_ok (insertAndCoalesce_exact fl off sz)" by simp
  from mp e cc show "cover (insertAndCoalesce_exact fl off sz) = cover fl \<union> {off ..< off + sz}"
    by (auto simp: fl)
qed

subsection \<open>findFreeBlock and splitFreeBlock_exact\<close>

lemma findFreeBlock_from_cases:
  "findFreeBlock_from fl sz i = - 1 \<or>
   (\<exists>k<length fl. findFreeBlock_from fl sz i = int (i + k) \<and> sz \<le> size_fb (fl ! k))"
proof (induction fl arbitrary: i)
  case Nil
  show ?case by simp
next
  case (Cons b bs)
  show ?case
  proof (cases "sz \<le> size_fb b")
    case True
    then show ?thesis by auto
  next
    case False
    from Cons.IH [of "Suc i"] False show ?thesis by fastforce
  qed
qed

lemma findFreeBlock_found:
  assumes "findFreeBlock fl sz \<noteq> - 1"
  shows "nat (findFreeBlock fl sz) < length fl" and "sz \<le> size_fb (fl ! nat (findFreeBlock fl sz))"
  using findFreeBlock_from_cases [of fl sz 0] assms by (auto simp: findFreeBlock_def)

lemma splitFreeBlock_ok:
  assumes ok: "fl_ok fl" and k: "k < length fl" and fit: "sz \<le> size_fb (fl ! k)" and s: "0 < sz"
    and sp: "splitFreeBlock_exact fl k sz = (off, fl')"
  shows "fl_ok fl'" and "cover fl' = cover fl - {off ..< off + sz}"
    and "{off ..< off + sz} \<subseteq> cover fl"
proof -
  define A where "A = take k fl"
  define b where "b = fl ! k"
  define C where "C = drop (Suc k) fl"
  have fl: "fl = A @ b # C" using k by (simp add: A_def b_def C_def id_take_nth_drop)
  from ok fl have okA: "fl_ok A" and okC: "fl_ok C" and pb: "0 < size_fb b"
    and gA: "\<forall>a\<in>set A. gap_before a b" and gC: "\<forall>c\<in>set C. gap_before b c"
    and gAC: "\<forall>a\<in>set A. \<forall>c\<in>set C. gap_before a c"
    by (auto simp: fl_ok_append fl_ok_Cons)
  from sp have off: "off = offset b" by (auto simp: splitFreeBlock_exact_def Let_def b_def split: if_splits)
  have cA: "x < offset b" if "x \<in> cover A" for x
    using cover_less [OF that] gA by (auto simp: gap_before_def)
  have cC: "offset b + size_fb b < x" if "x \<in> cover C" for x
    using cover_less [OF that] gC by (auto simp: gap_before_def)
  have fit': "sz \<le> size_fb b" using fit by (simp add: b_def)
  show "{off ..< off + sz} \<subseteq> cover fl" using fit' by (auto simp: fl off)
  show "fl_ok fl'" and "cover fl' = cover fl - {off ..< off + sz}"
  proof -
    have "fl_ok fl' \<and> cover fl' = cover fl - {off ..< off + sz}"
    proof (cases "size_fb b - sz > 0")
      case True
      let ?b' = "b\<lparr>offset := offset b + sz, size_fb := size_fb b - sz\<rparr>"
      from sp True have fl': "fl' = A @ ?b' # C"
        using k by (auto simp: splitFreeBlock_exact_def Let_def b_def A_def C_def upd_conv_take_nth_drop)
      have "fl_ok fl'"
        using okA okC True gA gC gAC s by (auto simp: fl' fl_ok_append fl_ok_Cons gap_before_def)
      moreover have "cover fl' = cover fl - {off ..< off + sz}"
        using cA cC s True by (fastforce simp: fl' fl off)
      ultimately show ?thesis by simp
    next
      case False
      with fit' have eq: "size_fb b = sz" by simp
      from sp False have fl': "fl' = A @ C"
        by (simp add: splitFreeBlock_exact_def Let_def b_def A_def C_def splice_remove_def)
      have "fl_ok fl'" using okA okC gAC by (simp add: fl' fl_ok_append)
      moreover have "cover fl' = cover fl - {off ..< off + sz}"
        using cA cC s eq by (fastforce simp: fl' fl off)
      ultimately show ?thesis by simp
    qed
    then show "fl_ok fl'" and "cover fl' = cover fl - {off ..< off + sz}" by simp_all
  qed
qed

subsection \<open>The heap invariant\<close>

definition span_ha :: "HeapAlloc \<Rightarrow> int set" where
  "span_ha a = {remote_ha a ..< remote_ha a + size_ha a}"

text \<open>
  One zone starting at the address \<open>zb\<close>: the free blocks are positive, ordered and
  separated by gaps, they lie below the bump pointer, and the live allocations of the
  zone lie below the bump pointer, apart from each other and from every free block.
\<close>

definition zone_ok :: "int \<Rightarrow> int \<Rightarrow> FreeBlock list \<Rightarrow> HeapAlloc set \<Rightarrow> bool" where
  "zone_ok zb bump fl L \<longleftrightarrow>
     0 \<le> bump \<and> fl_ok fl \<and> cover fl \<subseteq> {0 ..< bump} \<and>
     (\<forall>a\<in>L. 0 < size_ha a \<and> zb \<le> remote_ha a \<and> remote_ha a + size_ha a \<le> zb + bump) \<and>
     (\<forall>a\<in>L. \<forall>x\<in>cover fl. zb + x \<notin> span_ha a) \<and>
     (\<forall>a\<in>L. \<forall>a'\<in>L. a \<noteq> a' \<longrightarrow> span_ha a \<inter> span_ha a' = {})"

definition ro_live :: "Heap \<Rightarrow> HeapAlloc list \<Rightarrow> HeapAlloc set" where
  "ro_live h live = {a \<in> set live. remote_ha a < base h + roSize h}"

definition rw_live :: "Heap \<Rightarrow> HeapAlloc list \<Rightarrow> HeapAlloc set" where
  "rw_live h live = {a \<in> set live. base h + roSize h \<le> remote_ha a}"

definition heap_inv :: "Heap \<Rightarrow> HeapAlloc list \<Rightarrow> bool" where
  "heap_inv h live \<longleftrightarrow>
     distinct live \<and> roOffset h \<le> roSize h \<and> rwOffset h \<le> rwSize h \<and>
     zone_ok (base h) (roOffset h) (roFreeList h) (ro_live h live) \<and>
     zone_ok (base h + roSize h) (rwOffset h) (rwFreeList h) (rw_live h live)"

lemma zone_ok_bump:
  assumes z: "zone_ok zb bump fl L" and s: "0 < sz"
  shows "zone_ok zb (bump + sz) fl (insert \<lparr>remote_ha = zb + bump, size_ha = sz\<rparr> L)"
    and "\<lparr>remote_ha = zb + bump, size_ha = sz\<rparr> \<notin> L"
proof -
  let ?a = "\<lparr>remote_ha = zb + bump, size_ha = sz\<rparr>"
  from z have b: "0 \<le> bump" and ok: "fl_ok fl" and c: "cover fl \<subseteq> {0 ..< bump}"
    and l: "\<forall>a\<in>L. 0 < size_ha a \<and> zb \<le> remote_ha a \<and> remote_ha a + size_ha a \<le> zb + bump"
    and lf: "\<forall>a\<in>L. \<forall>x\<in>cover fl. zb + x \<notin> span_ha a"
    and ll: "\<forall>a\<in>L. \<forall>a'\<in>L. a \<noteq> a' \<longrightarrow> span_ha a \<inter> span_ha a' = {}"
    by (simp_all add: zone_ok_def)
  show n: "?a \<notin> L" using l s by force
  have d: "span_ha ?a \<inter> span_ha a' = {}" if "a' \<in> L" for a'
    using l that by (fastforce simp: span_ha_def)
  have "\<forall>a\<in>insert ?a L. \<forall>a'\<in>insert ?a L. a \<noteq> a' \<longrightarrow> span_ha a \<inter> span_ha a' = {}"
    using ll d by (auto simp: Int_commute)
  moreover have "\<forall>a\<in>insert ?a L. \<forall>x\<in>cover fl. zb + x \<notin> span_ha a"
    using lf c by (auto simp: span_ha_def)
  moreover have "\<forall>a\<in>insert ?a L. 0 < size_ha a \<and> zb \<le> remote_ha a \<and>
      remote_ha a + size_ha a \<le> zb + (bump + sz)"
    using l s b by auto
  moreover have "cover fl \<subseteq> {0 ..< bump + sz}" using c s by auto
  ultimately show "zone_ok zb (bump + sz) fl (insert ?a L)"
    using b s ok unfolding zone_ok_def by simp
qed

lemma zone_ok_split:
  assumes z: "zone_ok zb bump fl L" and s: "0 < sz" and k: "k < length fl"
    and fit: "sz \<le> size_fb (fl ! k)" and sp: "splitFreeBlock_exact fl k sz = (off, fl')"
  shows "zone_ok zb bump fl' (insert \<lparr>remote_ha = zb + off, size_ha = sz\<rparr> L)"
    and "\<lparr>remote_ha = zb + off, size_ha = sz\<rparr> \<notin> L"
    and "0 \<le> off" and "off + sz \<le> bump"
proof -
  let ?a = "\<lparr>remote_ha = zb + off, size_ha = sz\<rparr>"
  from z have b: "0 \<le> bump" and ok: "fl_ok fl" and c: "cover fl \<subseteq> {0 ..< bump}"
    and l: "\<forall>a\<in>L. 0 < size_ha a \<and> zb \<le> remote_ha a \<and> remote_ha a + size_ha a \<le> zb + bump"
    and lf: "\<forall>a\<in>L. \<forall>x\<in>cover fl. zb + x \<notin> span_ha a"
    and ll: "\<forall>a\<in>L. \<forall>a'\<in>L. a \<noteq> a' \<longrightarrow> span_ha a \<inter> span_ha a' = {}"
    by (simp_all add: zone_ok_def)
  note sk = splitFreeBlock_ok [OF ok k fit s sp]
  have i0: "off \<in> cover fl" and i1: "off + sz - 1 \<in> cover fl" using sk(3) s by auto
  with c show o: "0 \<le> off" and e: "off + sz \<le> bump" by auto
  show n: "?a \<notin> L"
  proof
    assume "?a \<in> L"
    with lf i0 have "zb + off \<notin> span_ha ?a" by blast
    with s show False by (simp add: span_ha_def)
  qed
  have d: "span_ha ?a \<inter> span_ha a' = {}" if "a' \<in> L" for a'
  proof -
    have "y \<notin> span_ha a'" if "y \<in> span_ha ?a" for y
    proof -
      from that have "y - zb \<in> {off ..< off + sz}" by (auto simp: span_ha_def)
      with sk(3) have "y - zb \<in> cover fl" by blast
      with lf \<open>a' \<in> L\<close> have "zb + (y - zb) \<notin> span_ha a'" by blast
      then show ?thesis by simp
    qed
    then show ?thesis by blast
  qed
  have "\<forall>a\<in>insert ?a L. \<forall>a'\<in>insert ?a L. a \<noteq> a' \<longrightarrow> span_ha a \<inter> span_ha a' = {}"
    using ll d by (auto simp: Int_commute)
  moreover have "\<forall>a\<in>insert ?a L. \<forall>x\<in>cover fl'. zb + x \<notin> span_ha a"
    using lf sk(2) by (auto simp: span_ha_def)
  moreover have "\<forall>a\<in>insert ?a L. 0 < size_ha a \<and> zb \<le> remote_ha a \<and>
      remote_ha a + size_ha a \<le> zb + bump"
    using l s o e by auto
  moreover have "cover fl' \<subseteq> {0 ..< bump}" using c sk(2) by auto
  ultimately show "zone_ok zb bump fl' (insert ?a L)"
    using b sk(1) unfolding zone_ok_def by simp
qed

lemma zone_ok_free:
  assumes z: "zone_ok zb bump fl L" and a: "a \<in> L"
  shows "zone_ok zb bump (insertAndCoalesce_exact fl (remote_ha a - zb) (size_ha a)) (L - {a})"
proof -
  from z have b: "0 \<le> bump" and ok: "fl_ok fl" and c: "cover fl \<subseteq> {0 ..< bump}"
    and l: "\<forall>a\<in>L. 0 < size_ha a \<and> zb \<le> remote_ha a \<and> remote_ha a + size_ha a \<le> zb + bump"
    and lf: "\<forall>a\<in>L. \<forall>x\<in>cover fl. zb + x \<notin> span_ha a"
    and ll: "\<forall>a\<in>L. \<forall>a'\<in>L. a \<noteq> a' \<longrightarrow> span_ha a \<inter> span_ha a' = {}"
    by (simp_all add: zone_ok_def)
  let ?o = "remote_ha a - zb" and ?s = "size_ha a"
  from l a have s: "0 < ?s" and lo: "0 \<le> ?o" and hi: "?o + ?s \<le> bump" by auto
  have dis: "{?o ..< ?o + ?s} \<inter> cover fl = {}"
  proof -
    have "x \<notin> cover fl" if "x \<in> {?o ..< ?o + ?s}" for x
    proof
      assume "x \<in> cover fl"
      with lf a have "zb + x \<notin> span_ha a" by blast
      with that show False by (auto simp: span_ha_def)
    qed
    then show ?thesis by blast
  qed
  note ic = insertAndCoalesce_ok [OF ok s dis]
  have "cover (insertAndCoalesce_exact fl ?o ?s) \<subseteq> {0 ..< bump}"
    using ic(2) c lo hi by auto
  moreover have "\<forall>a'\<in>L - {a}. \<forall>x\<in>cover (insertAndCoalesce_exact fl ?o ?s). zb + x \<notin> span_ha a'"
  proof (intro ballI)
    fix a' x assume a': "a' \<in> L - {a}" and x: "x \<in> cover (insertAndCoalesce_exact fl ?o ?s)"
    from x ic(2) have "x \<in> cover fl \<or> x \<in> {?o ..< ?o + ?s}" by auto
    then show "zb + x \<notin> span_ha a'"
    proof
      assume "x \<in> cover fl"
      with lf a' show ?thesis by blast
    next
      assume "x \<in> {?o ..< ?o + ?s}"
      then have "zb + x \<in> span_ha a" by (auto simp: span_ha_def)
      moreover from ll a a' have "span_ha a' \<inter> span_ha a = {}" by blast
      ultimately show ?thesis by blast
    qed
  qed
  moreover have "\<forall>a'\<in>L - {a}. 0 < size_ha a' \<and> zb \<le> remote_ha a' \<and>
      remote_ha a' + size_ha a' \<le> zb + bump" using l by simp
  moreover have "\<forall>x\<in>L - {a}. \<forall>y\<in>L - {a}. x \<noteq> y \<longrightarrow> span_ha x \<inter> span_ha y = {}" using ll by simp
  ultimately show ?thesis using b ic(1) unfolding zone_ok_def by simp
qed

lemma live_partition:
  "a \<in> set live \<Longrightarrow> a \<in> ro_live h live \<or> a \<in> rw_live h live"
  by (auto simp: ro_live_def rw_live_def)

lemma heap_inv_allocReadonly:
  assumes inv: "heap_inv h live" and al: "allocReadonly_exact h sz = Inr (a, h')"
  shows "heap_inv h' (a # live)"
proof -
  from inv have d: "distinct live" and ro: "roOffset h \<le> roSize h" and rw: "rwOffset h \<le> rwSize h"
    and zro: "zone_ok (base h) (roOffset h) (roFreeList h) (ro_live h live)"
    and zrw: "zone_ok (base h + roSize h) (rwOffset h) (rwFreeList h) (rw_live h live)"
    by (simp_all add: heap_inv_def)
  from al have s: "0 < sz" by (auto simp: allocReadonly_exact_def split: if_splits)
  from zrw have rwl: "\<forall>x\<in>rw_live h live. base h + roSize h \<le> remote_ha x"
    by (simp add: rw_live_def)
  show ?thesis
  proof (cases "findFreeBlock (roFreeList h) sz = - 1")
    case False
    define k where "k = nat (findFreeBlock (roFreeList h) sz)"
    note ff = findFreeBlock_found [OF False, folded k_def]
    obtain off fl where sp: "splitFreeBlock_exact (roFreeList h) k sz = (off, fl)"
      by (cases "splitFreeBlock_exact (roFreeList h) k sz")
    from al s False sp have a: "a = \<lparr>remote_ha = base h + off, size_ha = sz\<rparr>"
      and h': "h' = h\<lparr>roFreeList := fl\<rparr>"
      by (simp_all add: allocReadonly_exact_def Let_def k_def)
    note zs = zone_ok_split [OF zro s ff sp]
    have lt: "remote_ha a < base h + roSize h" using zs(4) s ro by (simp add: a)
    have "a \<notin> set live"
    proof
      assume "a \<in> set live"
      from live_partition [OF this, of h] zs(2) rwl lt show False by (auto simp: a)
    qed
    moreover have "ro_live h' (a # live) = insert a (ro_live h live)"
      using lt by (auto simp: ro_live_def h')
    moreover have "rw_live h' (a # live) = rw_live h live"
      using lt by (auto simp: rw_live_def h')
    ultimately show ?thesis
      using d ro rw zs(1) zrw by (simp add: heap_inv_def h' a)
  next
    case True
    with al s have fits: "roOffset h + sz \<le> roSize h"
      and a: "a = \<lparr>remote_ha = base h + roOffset h, size_ha = sz\<rparr>"
      and h': "h' = h\<lparr>roOffset := roOffset h + sz\<rparr>"
      by (auto simp: allocReadonly_exact_def Let_def split: if_splits)
    note zb = zone_ok_bump [OF zro s]
    have lt: "remote_ha a < base h + roSize h" using fits s by (simp add: a)
    have "a \<notin> set live"
    proof
      assume "a \<in> set live"
      from live_partition [OF this, of h] zb(2) rwl lt show False by (auto simp: a)
    qed
    moreover have "ro_live h' (a # live) = insert a (ro_live h live)"
      using lt by (auto simp: ro_live_def h')
    moreover have "rw_live h' (a # live) = rw_live h live"
      using lt by (auto simp: rw_live_def h')
    ultimately show ?thesis
      using d fits rw zb(1) zrw by (simp add: heap_inv_def h' a)
  qed
qed

lemma heap_inv_alloc:
  assumes inv: "heap_inv h live" and al: "alloc_exact h sz = Inr (a, h')"
  shows "heap_inv h' (a # live)"
proof -
  from inv have d: "distinct live" and ro: "roOffset h \<le> roSize h" and rw: "rwOffset h \<le> rwSize h"
    and zro: "zone_ok (base h) (roOffset h) (roFreeList h) (ro_live h live)"
    and zrw: "zone_ok (base h + roSize h) (rwOffset h) (rwFreeList h) (rw_live h live)"
    by (simp_all add: heap_inv_def)
  from al have s: "0 < sz" by (auto simp: alloc_exact_def split: if_splits)
  have rol: "\<forall>x\<in>ro_live h live. remote_ha x < base h + roSize h"
    by (simp add: ro_live_def)
  show ?thesis
  proof (cases "findFreeBlock (rwFreeList h) sz = - 1")
    case False
    define k where "k = nat (findFreeBlock (rwFreeList h) sz)"
    note ff = findFreeBlock_found [OF False, folded k_def]
    obtain off fl where sp: "splitFreeBlock_exact (rwFreeList h) k sz = (off, fl)"
      by (cases "splitFreeBlock_exact (rwFreeList h) k sz")
    from al s False sp have a: "a = \<lparr>remote_ha = base h + roSize h + off, size_ha = sz\<rparr>"
      and h': "h' = h\<lparr>rwFreeList := fl\<rparr>"
      by (simp_all add: alloc_exact_def Let_def k_def)
    note zs = zone_ok_split [OF zrw s ff sp]
    have ge: "base h + roSize h \<le> remote_ha a" using zs(3) by (simp add: a)
    have "a \<notin> set live"
    proof
      assume "a \<in> set live"
      from live_partition [OF this, of h] zs(2) rol ge show False by (auto simp: a)
    qed
    moreover have "rw_live h' (a # live) = insert a (rw_live h live)"
      using ge by (auto simp: rw_live_def h')
    moreover have "ro_live h' (a # live) = ro_live h live"
      using ge by (auto simp: ro_live_def h')
    ultimately show ?thesis
      using d ro rw zs(1) zro by (simp add: heap_inv_def h' a)
  next
    case True
    with al s have fits: "rwOffset h + sz \<le> rwSize h"
      and a: "a = \<lparr>remote_ha = base h + (roSize h + rwOffset h), size_ha = sz\<rparr>"
      and h': "h' = h\<lparr>rwOffset := rwOffset h + sz\<rparr>"
      by (auto simp: alloc_exact_def Let_def split: if_splits)
    note zb = zone_ok_bump [OF zrw s]
    from zrw have "0 \<le> rwOffset h" by (simp add: zone_ok_def)
    then have ge: "base h + roSize h \<le> remote_ha a" by (simp add: a)
    have "a \<notin> set live"
    proof
      assume "a \<in> set live"
      from live_partition [OF this, of h] zb(2) rol ge show False by (auto simp: a add.assoc)
    qed
    moreover have "rw_live h' (a # live) = insert a (rw_live h live)"
      using ge by (auto simp: rw_live_def h')
    moreover have "ro_live h' (a # live) = ro_live h live"
      using ge by (auto simp: ro_live_def h')
    ultimately show ?thesis
      using d ro fits zb(1) zro by (simp add: heap_inv_def h' a add.assoc)
  qed
qed

lemma heap_inv_free:
  assumes inv: "heap_inv h live" and a: "a \<in> set live"
  shows "\<exists>h'. free_exact h a = Inr h' \<and> heap_inv h' (remove1 a live)"
proof -
  from inv have d: "distinct live" and ro: "roOffset h \<le> roSize h" and rw: "rwOffset h \<le> rwSize h"
    and zro: "zone_ok (base h) (roOffset h) (roFreeList h) (ro_live h live)"
    and zrw: "zone_ok (base h + roSize h) (rwOffset h) (rwFreeList h) (rw_live h live)"
    by (simp_all add: heap_inv_def)
  have sr: "set (remove1 a live) = set live - {a}" using d by simp
  have dr: "distinct (remove1 a live)" using d by simp
  from live_partition [OF a, of h] show ?thesis
  proof
    assume ar: "a \<in> ro_live h live"
    then have lt: "remote_ha a < base h + roSize h" by (simp add: ro_live_def)
    from zro ar have ge: "base h \<le> remote_ha a" by (simp add: zone_ok_def)
    let ?h' = "h\<lparr>roFreeList := insertAndCoalesce_exact (roFreeList h) (remote_ha a - base h) (size_ha a)\<rparr>"
    have f: "free_exact h a = Inr ?h'" using lt ge by (simp add: free_exact_def Let_def)
    have "ro_live ?h' (remove1 a live) = ro_live h live - {a}"
      by (auto simp: ro_live_def sr)
    moreover have "rw_live ?h' (remove1 a live) = rw_live h live"
      using lt by (auto simp: rw_live_def sr)
    ultimately have "heap_inv ?h' (remove1 a live)"
      using dr ro rw zone_ok_free [OF zro ar] zrw by (simp add: heap_inv_def)
    with f show ?thesis by blast
  next
    assume aw: "a \<in> rw_live h live"
    then have ge: "base h + roSize h \<le> remote_ha a" by (simp add: rw_live_def)
    from zrw aw have "0 < size_ha a" "remote_ha a + size_ha a \<le> base h + roSize h + rwOffset h"
      by (simp_all add: zone_ok_def)
    with rw have lt: "remote_ha a < base h + roSize h + rwSize h" by simp
    let ?h' = "h\<lparr>rwFreeList := insertAndCoalesce_exact (rwFreeList h) (remote_ha a - (base h + roSize h)) (size_ha a)\<rparr>"
    have f: "free_exact h a = Inr ?h'" using lt ge by (simp add: free_exact_def Let_def)
    have "rw_live ?h' (remove1 a live) = rw_live h live - {a}"
      by (auto simp: rw_live_def sr)
    moreover have "ro_live ?h' (remove1 a live) = ro_live h live"
      using ge by (auto simp: ro_live_def sr)
    ultimately have "heap_inv ?h' (remove1 a live)"
      using dr ro rw zone_ok_free [OF zrw aw] zro by (simp add: heap_inv_def)
    with f show ?thesis by blast
  qed
qed

lemma heap_inv_step:
  assumes "heap_inv h live" and "heap_step_exact (h, live) op = Some (h', live')"
  shows "heap_inv h' live'"
proof (cases op)
  case (OpAlloc sz)
  show ?thesis
  proof (cases "alloc_exact h sz")
    case (Inl e)
    with assms OpAlloc show ?thesis by simp
  next
    case (Inr r)
    obtain a h1 where r: "r = (a, h1)" by (cases r)
    with Inr assms OpAlloc heap_inv_alloc [of h live sz a h1] show ?thesis by auto
  qed
next
  case (OpAllocReadonly sz)
  show ?thesis
  proof (cases "allocReadonly_exact h sz")
    case (Inl e)
    with assms OpAllocReadonly show ?thesis by simp
  next
    case (Inr r)
    obtain a h1 where r: "r = (a, h1)" by (cases r)
    with Inr assms OpAllocReadonly heap_inv_allocReadonly [of h live sz a h1] show ?thesis by auto
  qed
next
  case (OpFree a)
  with assms(2) have a: "a \<in> set live" by (auto split: if_splits)
  from heap_inv_free [OF assms(1) a] obtain h1 where "free_exact h a = Inr h1" "heap_inv h1 (remove1 a live)"
    by blast
  with assms(2) OpFree a show ?thesis by simp
qed

lemma heap_inv_run:
  "heap_inv h live \<Longrightarrow> heap_run_exact (h, live) ops = Some (h', live') \<Longrightarrow> heap_inv h' live'"
proof (induction ops arbitrary: h live)
  case Nil
  then show ?case by simp
next
  case (Cons op ops)
  from Cons.prems(2) obtain s where s: "heap_step_exact (h, live) op = Some s"
    and r: "heap_run_exact s ops = Some (h', live')"
    by (auto split: option.splits)
  obtain h1 l1 where s1: "s = (h1, l1)" by (cases s)
  from heap_inv_step [OF Cons.prems(1) s [unfolded s1]] have "heap_inv h1 l1" .
  from Cons.IH [OF this r [unfolded s1]] show ?case .
qed

subsection \<open>Rounding below and above \<open>2^53\<close>\<close>

lemma bitlen_bounds:
  "0 < n \<Longrightarrow> 2 ^ (bitlen n - 1) \<le> n \<and> n < 2 ^ bitlen n"
proof (induction n rule: bitlen.induct)
  case (1 n)
  show ?case
  proof (cases "n div 2 = 0")
    case True
    with "1.prems" have "n = 1" by presburger
    moreover have "bitlen (Suc 0) = Suc 0"
      by (simp add: bitlen.simps [of "Suc 0"] bitlen.simps [of 0])
    ultimately show ?thesis by simp
  next
    case False
    then have p: "0 < n div 2" by simp
    from "1.prems" have b: "bitlen n = Suc (bitlen (n div 2))" by (subst bitlen.simps) simp
    from "1.IH" "1.prems" p have ih: "2 ^ (bitlen (n div 2) - 1) \<le> n div 2" "n div 2 < 2 ^ bitlen (n div 2)"
      by simp_all
    have pos: "0 < bitlen (n div 2)" using p by (subst bitlen.simps) simp
    then obtain m where m: "bitlen (n div 2) = Suc m" by (cases "bitlen (n div 2)") auto
    from ih m have "2 ^ m \<le> n div 2" "n div 2 < 2 * 2 ^ m" by simp_all
    then have "2 * 2 ^ m \<le> n" "n < 2 * (2 * 2 ^ m)" by presburger+
    then show ?thesis by (simp add: b m)
  qed
qed

lemma round53_id: "n < 2 ^ 53 \<Longrightarrow> round53 n = n"
  by (simp add: round53_def)

lemma round53_ge:
  assumes "2 ^ 53 \<le> n"
  shows "2 ^ 53 \<le> round53 n"
proof -
  from assms have n0: "0 < n" by (metis gr0I not_less_eq_eq zero_less_power pos2 not_less less_eq_nat.simps(1))
  note b = bitlen_bounds [OF n0]
  from assms b have "(2::nat) ^ 53 < 2 ^ bitlen n" by linarith
  have L: "53 < bitlen n"
  proof (rule ccontr)
    assume "\<not> 53 < bitlen n"
    then have "bitlen n \<le> 53" by simp
    then have "(2::nat) ^ bitlen n \<le> 2 ^ 53" by (rule power_increasing) simp
    with \<open>(2::nat) ^ 53 < 2 ^ bitlen n\<close> show False by linarith
  qed
  define e where "e = bitlen n - 54"
  have Le: "bitlen n = 54 + e" using L by (simp add: e_def)
  define q :: nat where "q = 2 ^ (bitlen n - 53)"
  have q: "q = 2 * 2 ^ e" by (simp add: q_def Le)
  have lo: "2 ^ 53 * 2 ^ e \<le> n" using b by (simp add: Le power_add)
  have "2 ^ 52 * q \<le> n" using lo by (simp add: q)
  then have d: "2 ^ 52 \<le> n div q" using q by (simp add: less_eq_div_iff_mult_less_eq)
  have q1: "1 \<le> q" by (simp add: q)
  have "2 ^ 53 \<le> (2::nat) ^ 52 * q" by (simp add: q)
  also have "\<dots> \<le> (n div q) * q" using d by simp
  finally have base: "2 ^ 53 \<le> (n div q) * q" .
  have "(n div q) * q \<le> (n div q + 1) * q" by simp
  with base have up: "2 ^ 53 \<le> (n div q + 1) * q" by linarith
  from assms have "round53 n = (if 2 * (n mod q) < q \<or> (2 * (n mod q) = q \<and> even (n div q))
      then n div q else n div q + 1) * q"
    by (simp add: round53_def Let_def q_def)
  with base up show ?thesis by (simp split: if_splits)
qed

lemma toDouble_id: "\<bar>x\<bar> < 2 ^ 53 \<Longrightarrow> toDouble x = x"
proof -
  assume a: "\<bar>x\<bar> < 2 ^ 53"
  then have "nat \<bar>x\<bar> < 2 ^ 53" by (simp add: nat_less_iff)
  then have "round53 (nat \<bar>x\<bar>) = nat \<bar>x\<bar>" by (rule round53_id)
  then show ?thesis by (simp add: toDouble_def sgn_if)
qed

lemma toDouble_ge: "2 ^ 53 \<le> x \<Longrightarrow> 2 ^ 53 \<le> toDouble x"
proof -
  assume a: "2 ^ 53 \<le> x"
  then have "2 ^ 53 \<le> nat \<bar>x\<bar>" by (simp add: le_nat_iff)
  from round53_ge [OF this] a have "2 ^ 53 \<le> int (round53 (nat \<bar>x\<bar>))"
    by (metis of_nat_le_iff of_nat_numeral of_nat_power)
  moreover from a have "sgn x = 1" by (simp add: sgn_if)
  ultimately show ?thesis by (simp add: toDouble_def)
qed

lemma toDouble_neg: "x < 0 \<Longrightarrow> toDouble x < 0"
proof -
  assume a: "x < 0"
  have "0 < round53 (nat \<bar>x\<bar>)"
  proof (cases "nat \<bar>x\<bar> < 2 ^ 53")
    case True
    with a show ?thesis by (simp add: round53_id)
  next
    case False
    then have "2 ^ 53 \<le> nat \<bar>x\<bar>" by simp
    from round53_ge [OF this] show ?thesis by (metis gr0I not_less_eq_eq zero_less_power pos2 not_less less_eq_nat.simps(1) le_zero_eq power_eq_0_iff zero_neq_numeral)
  qed
  with a show ?thesis by (simp add: toDouble_def sgn_if)
qed

lemma num_add_exact: "\<bar>a + b\<bar> < 2 ^ 53 \<Longrightarrow> num_add a b = a + b"
  by (simp add: num_add_def toDouble_id)

lemma num_sub_exact: "\<bar>a - b\<bar> < 2 ^ 53 \<Longrightarrow> num_sub a b = a - b"
  by (simp add: num_sub_def toDouble_id)

subsection \<open>The heap operations below \<open>2^53\<close>\<close>

definition fl_bounded :: "int \<Rightarrow> FreeBlock list \<Rightarrow> bool" where
  "fl_bounded M fl \<longleftrightarrow> (\<forall>b\<in>set fl. 0 \<le> offset b \<and> 0 < size_fb b \<and> offset b + size_fb b \<le> M)"

lemma zone_ok_bounded:
  assumes "zone_ok zb bump fl L"
  shows "fl_bounded bump fl"
proof -
  from assms have ok: "fl_ok fl" and c: "cover fl \<subseteq> {0 ..< bump}" by (simp_all add: zone_ok_def)
  have "0 \<le> offset b \<and> 0 < size_fb b \<and> offset b + size_fb b \<le> bump" if b: "b \<in> set fl" for b
  proof -
    from ok b have p: "0 < size_fb b" by (simp add: fl_ok_def)
    then have "offset b \<in> {offset b ..< offset b + size_fb b}"
      "offset b + size_fb b - 1 \<in> {offset b ..< offset b + size_fb b}" by simp_all
    with b have "offset b \<in> cover fl" "offset b + size_fb b - 1 \<in> cover fl"
      unfolding cover_def by blast+
    with c have "offset b \<in> {0 ..< bump}" "offset b + size_fb b - 1 \<in> {0 ..< bump}" by blast+
    with p show ?thesis by simp
  qed
  then show ?thesis by (simp add: fl_bounded_def)
qed

lemma fl_bounded_nth: "fl_bounded M fl \<Longrightarrow> k < length fl \<Longrightarrow>
    0 \<le> offset (fl ! k) \<and> 0 < size_fb (fl ! k) \<and> offset (fl ! k) + size_fb (fl ! k) \<le> M"
  by (simp add: fl_bounded_def)

lemma splitFreeBlock_eq:
  assumes b: "fl_bounded M fl" and M: "M < 2 ^ 53" and k: "k < length fl"
    and s: "0 < sz" and fit: "sz \<le> size_fb (fl ! k)"
  shows "splitFreeBlock fl k sz = splitFreeBlock_exact fl k sz"
proof -
  note n = fl_bounded_nth [OF b k]
  from n M s fit have "\<bar>size_fb (fl ! k) - sz\<bar> < 2 ^ 53" "\<bar>offset (fl ! k) + sz\<bar> < 2 ^ 53" by linarith+
  then have "num_sub (size_fb (fl ! k)) sz = size_fb (fl ! k) - sz"
    "num_add (offset (fl ! k)) sz = offset (fl ! k) + sz"
    by (simp_all add: num_sub_exact num_add_exact)
  then show ?thesis by (simp add: splitFreeBlock_def splitFreeBlock_exact_def Let_def)
qed

lemma mergeNext_eq:
  assumes b: "fl_bounded M fl" and M: "M < 2 ^ 53"
  shows "mergeNext fl i = mergeNext_exact fl i"
proof (cases "i + 1 < length fl")
  case False
  then show ?thesis by (simp add: mergeNext_def mergeNext_exact_def)
next
  case True
  then have i: "i < length fl" by simp
  note c = fl_bounded_nth [OF b i] and n = fl_bounded_nth [OF b True]
  from c M have "\<bar>offset (fl ! i) + size_fb (fl ! i)\<bar> < 2 ^ 53" by linarith
  then have 1: "num_add (offset (fl ! i)) (size_fb (fl ! i)) = offset (fl ! i) + size_fb (fl ! i)"
    by (rule num_add_exact)
  have 2: "num_add (size_fb (fl ! i)) (size_fb (fl ! (i + 1))) = size_fb (fl ! i) + size_fb (fl ! (i + 1))"
    if "offset (fl ! i) + size_fb (fl ! i) = offset (fl ! (i + 1))"
  proof -
    from that c n M have "\<bar>size_fb (fl ! i) + size_fb (fl ! (i + 1))\<bar> < 2 ^ 53" by linarith
    then show ?thesis by (rule num_add_exact)
  qed
  show ?thesis
    using True 1 2 by (simp add: mergeNext_def mergeNext_exact_def Let_def)
qed

lemma mergePrev_eq:
  assumes b: "fl_bounded M fl" and M: "M < 2 ^ 53" and i: "i < length fl"
  shows "mergePrev fl i = mergePrev_exact fl i"
proof (cases "0 < i")
  case False
  then show ?thesis by (simp add: mergePrev_def mergePrev_exact_def)
next
  case True
  with i have p: "i - 1 < length fl" by simp
  note c = fl_bounded_nth [OF b p] and n = fl_bounded_nth [OF b i]
  from c M have "\<bar>offset (fl ! (i - 1)) + size_fb (fl ! (i - 1))\<bar> < 2 ^ 53" by linarith
  then have 1: "num_add (offset (fl ! (i - 1))) (size_fb (fl ! (i - 1))) =
      offset (fl ! (i - 1)) + size_fb (fl ! (i - 1))"
    by (rule num_add_exact)
  have 2: "num_add (size_fb (fl ! (i - 1))) (size_fb (fl ! i)) = size_fb (fl ! (i - 1)) + size_fb (fl ! i)"
    if "offset (fl ! (i - 1)) + size_fb (fl ! (i - 1)) = offset (fl ! i)"
  proof -
    from that c n M have "\<bar>size_fb (fl ! (i - 1)) + size_fb (fl ! i)\<bar> < 2 ^ 53" by linarith
    then show ?thesis by (rule num_add_exact)
  qed
  show ?thesis
    using True 1 2 by (simp add: mergePrev_def mergePrev_exact_def Let_def)
qed

lemma set_splice_remove: "set (splice_remove xs i) \<subseteq> set xs"
  by (auto simp: splice_remove_def dest: in_set_takeD in_set_dropD)

lemma fl_bounded_splice_insert:
  assumes "fl_bounded M fl" and "0 \<le> offset x \<and> 0 < size_fb x \<and> offset x + size_fb x \<le> M"
  shows "fl_bounded M (splice_insert fl i x)"
proof -
  have "set (splice_insert fl i x) \<subseteq> insert x (set fl)"
    by (auto simp: splice_insert_def dest: in_set_takeD in_set_dropD)
  with assms show ?thesis unfolding fl_bounded_def by blast
qed

lemma fl_bounded_mergeNext:
  assumes b: "fl_bounded M fl"
  shows "fl_bounded M (mergeNext_exact fl i)"
proof (cases "i + 1 < length fl \<and> offset (fl ! i) + size_fb (fl ! i) = offset (fl ! (i + 1))")
  case False
  with b show ?thesis by (auto simp: mergeNext_exact_def Let_def)
next
  case True
  then have i: "i < length fl" and i1: "i + 1 < length fl" by simp_all
  note c = fl_bounded_nth [OF b i] and n = fl_bounded_nth [OF b i1]
  let ?m = "(fl ! i)\<lparr>size_fb := size_fb (fl ! i) + size_fb (fl ! (i + 1))\<rparr>"
  have m: "0 \<le> offset ?m \<and> 0 < size_fb ?m \<and> offset ?m + size_fb ?m \<le> M"
    using True c n by simp
  have "set (splice_remove (fl[i := ?m]) (i + 1)) \<subseteq> insert ?m (set fl)"
  proof
    fix y assume "y \<in> set (splice_remove (fl[i := ?m]) (i + 1))"
    then have "y \<in> set (fl[i := ?m])"
      using set_splice_remove [of "fl[i := ?m]" "i + 1"] by blast
    then show "y \<in> insert ?m (set fl)" using set_update_subset_insert by fastforce
  qed
  with b m have "fl_bounded M (splice_remove (fl[i := ?m]) (i + 1))"
    unfolding fl_bounded_def by blast
  with True show ?thesis by (simp add: mergeNext_exact_def Let_def)
qed

lemma length_mergeNext: "i < length fl \<Longrightarrow> i < length (mergeNext_exact fl i)"
  by (auto simp: mergeNext_exact_def Let_def splice_remove_def)

lemma insertAndCoalesce_eq:
  assumes b: "fl_bounded M fl" and M: "M < 2 ^ 53"
    and x: "0 \<le> off" "0 < sz" "off + sz \<le> M"
  shows "insertAndCoalesce fl off sz = insertAndCoalesce_exact fl off sz"
proof -
  let ?i = "findInsertIdx fl off"
  let ?ins = "splice_insert fl ?i \<lparr>offset = off, size_fb = sz\<rparr>"
  have bi: "fl_bounded M ?ins" using x by (intro fl_bounded_splice_insert [OF b]) simp
  have il: "?i \<le> length fl" by (induction fl) auto
  then have li: "?i < length ?ins" by (simp add: splice_insert_def)
  have 1: "mergeNext ?ins ?i = mergeNext_exact ?ins ?i" by (rule mergeNext_eq [OF bi M])
  have 2: "mergePrev (mergeNext_exact ?ins ?i) ?i = mergePrev_exact (mergeNext_exact ?ins ?i) ?i"
    by (rule mergePrev_eq [OF fl_bounded_mergeNext [OF bi] M length_mergeNext [OF li]])
  show ?thesis by (simp add: insertAndCoalesce_def insertAndCoalesce_exact_def Let_def 1 2)
qed

lemma bump_check:
  assumes "0 \<le> off" and "0 < sz" and "cap < 2 ^ 53"
  shows "num_add off sz > cap \<longleftrightarrow> off + sz > cap"
    and "off + sz \<le> cap \<Longrightarrow> num_add off sz = off + sz"
proof -
  show "num_add off sz > cap \<longleftrightarrow> off + sz > cap"
  proof (cases "off + sz < 2 ^ 53")
    case True
    with assms have "\<bar>off + sz\<bar> < 2 ^ 53" by linarith
    then show ?thesis by (simp add: num_add_exact)
  next
    case False
    then have "2 ^ 53 \<le> off + sz" by simp
    from toDouble_ge [OF this] this assms(3) show ?thesis by (simp add: num_add_def)
  qed
  show "num_add off sz = off + sz" if "off + sz \<le> cap"
  proof -
    from that assms have "\<bar>off + sz\<bar> < 2 ^ 53" by linarith
    then show ?thesis by (rule num_add_exact)
  qed
qed

lemma allocReadonly_eq:
  assumes inv: "heap_inv h live" and lim: "roSize h < 2 ^ 53"
  shows "allocReadonly h sz = allocReadonly_exact h sz"
proof (cases "sz \<le> 0")
  case True
  then show ?thesis by (simp add: allocReadonly_def allocReadonly_exact_def)
next
  case False
  then have s: "0 < sz" by simp
  from inv have ro: "roOffset h \<le> roSize h"
    and z: "zone_ok (base h) (roOffset h) (roFreeList h) (ro_live h live)"
    by (simp_all add: heap_inv_def)
  from z have o0: "0 \<le> roOffset h" by (simp add: zone_ok_def)
  show ?thesis
  proof (cases "findFreeBlock (roFreeList h) sz = - 1")
    case True
    note bc = bump_check [OF o0 s lim]
    show ?thesis
      using s True bc by (auto simp: allocReadonly_def allocReadonly_exact_def Let_def)
  next
    case nf: False
    note ff = findFreeBlock_found [OF nf]
    from ro lim have "roOffset h < 2 ^ 53" by linarith
    from splitFreeBlock_eq [OF zone_ok_bounded [OF z] this ff(1) s ff(2)]
    show ?thesis
      using s nf by (simp add: allocReadonly_def allocReadonly_exact_def Let_def)
  qed
qed

lemma alloc_eq:
  assumes inv: "heap_inv h live" and lim: "rwSize h < 2 ^ 53"
  shows "alloc h sz = alloc_exact h sz"
proof (cases "sz \<le> 0")
  case True
  then show ?thesis by (simp add: alloc_def alloc_exact_def)
next
  case False
  then have s: "0 < sz" by simp
  from inv have rw: "rwOffset h \<le> rwSize h"
    and z: "zone_ok (base h + roSize h) (rwOffset h) (rwFreeList h) (rw_live h live)"
    by (simp_all add: heap_inv_def)
  from z have o0: "0 \<le> rwOffset h" by (simp add: zone_ok_def)
  show ?thesis
  proof (cases "findFreeBlock (rwFreeList h) sz = - 1")
    case True
    note bc = bump_check [OF o0 s lim]
    show ?thesis
      using s True bc by (auto simp: alloc_def alloc_exact_def Let_def)
  next
    case nf: False
    note ff = findFreeBlock_found [OF nf]
    from rw lim have "rwOffset h < 2 ^ 53" by linarith
    from splitFreeBlock_eq [OF zone_ok_bounded [OF z] this ff(1) s ff(2)]
    show ?thesis
      using s nf by (simp add: alloc_def alloc_exact_def Let_def)
  qed
qed

lemma free_eq:
  assumes inv: "heap_inv h live" and a: "a \<in> set live"
    and lro: "roSize h < 2 ^ 53" and lrw: "rwSize h < 2 ^ 53"
  shows "free h a = free_exact h a"
proof -
  from inv have ro: "roOffset h \<le> roSize h" and rw: "rwOffset h \<le> rwSize h"
    and zro: "zone_ok (base h) (roOffset h) (roFreeList h) (ro_live h live)"
    and zrw: "zone_ok (base h + roSize h) (rwOffset h) (rwFreeList h) (rw_live h live)"
    by (simp_all add: heap_inv_def)
  from live_partition [OF a, of h] show ?thesis
  proof
    assume ar: "a \<in> ro_live h live"
    from zro ar have l: "0 < size_ha a" "base h \<le> remote_ha a"
      "remote_ha a + size_ha a \<le> base h + roOffset h"
      by (simp_all add: zone_ok_def)
    from ro lro have M: "roOffset h < 2 ^ 53" by linarith
    from l M have "\<bar>remote_ha a - base h\<bar> < 2 ^ 53" by linarith
    then have t: "toDouble (remote_ha a - base h) = remote_ha a - base h" by (rule toDouble_id)
    have x: "0 \<le> remote_ha a - base h" "remote_ha a - base h + size_ha a \<le> roOffset h"
      using l by simp_all
    note e = insertAndCoalesce_eq [OF zone_ok_bounded [OF zro] M x(1) l(1) x(2)]
    have c: "base h \<le> remote_ha a \<and> remote_ha a < base h + roSize h" using l ro by linarith
    show ?thesis unfolding free_def free_exact_def Let_def by (simp only: c simp_thms if_True t e)
  next
    assume aw: "a \<in> rw_live h live"
    from zrw aw have l: "0 < size_ha a" "base h + roSize h \<le> remote_ha a"
      "remote_ha a + size_ha a \<le> base h + roSize h + rwOffset h"
      by (simp_all add: zone_ok_def)
    from rw lrw have M: "rwOffset h < 2 ^ 53" by linarith
    from l M have "\<bar>remote_ha a - (base h + roSize h)\<bar> < 2 ^ 53" by linarith
    then have t: "toDouble (remote_ha a - (base h + roSize h)) = remote_ha a - (base h + roSize h)"
      by (rule toDouble_id)
    have x: "0 \<le> remote_ha a - (base h + roSize h)"
      "remote_ha a - (base h + roSize h) + size_ha a \<le> rwOffset h"
      using l by simp_all
    note e = insertAndCoalesce_eq [OF zone_ok_bounded [OF zrw] M x(1) l(1) x(2)]
    have c1: "\<not> (base h \<le> remote_ha a \<and> remote_ha a < base h + roSize h)" using l by linarith
    have c2: "base h + roSize h \<le> remote_ha a \<and> remote_ha a < base h + roSize h + rwSize h"
      using l rw by linarith
    show ?thesis unfolding free_def free_exact_def Let_def by (simp only: c1 c2 simp_thms if_True if_False t e)
  qed
qed

lemma heap_step_eq:
  assumes "heap_inv h live" and "roSize h < 2 ^ 53" and "rwSize h < 2 ^ 53"
  shows "heap_step (h, live) op = heap_step_exact (h, live) op"
proof (cases op)
  case (OpAlloc sz)
  with alloc_eq [OF assms(1,3)] show ?thesis by simp
next
  case (OpAllocReadonly sz)
  with allocReadonly_eq [OF assms(1,2)] show ?thesis by simp
next
  case (OpFree a)
  show ?thesis
  proof (cases "a \<in> set live")
    case True
    with free_eq [OF assms(1) True assms(2,3)] OpFree show ?thesis by simp
  next
    case False
    with OpFree show ?thesis by simp
  qed
qed

lemma heap_step_exact_sizes:
  assumes "heap_step_exact (h, live) op = Some (h', live')"
  shows "roSize h' = roSize h \<and> rwSize h' = rwSize h"
proof (cases op)
  case (OpAlloc sz)
  with assms show ?thesis
    by (auto simp: alloc_exact_def Let_def split: sum.splits if_splits prod.splits)
next
  case (OpAllocReadonly sz)
  with assms show ?thesis
    by (auto simp: allocReadonly_exact_def Let_def split: sum.splits if_splits prod.splits)
next
  case (OpFree a)
  with assms show ?thesis
    by (auto simp: free_exact_def Let_def split: sum.splits if_splits)
qed

lemma heap_run_eq:
  "heap_inv h live \<Longrightarrow> roSize h < 2 ^ 53 \<Longrightarrow> rwSize h < 2 ^ 53 \<Longrightarrow>
   heap_run (h, live) ops = heap_run_exact (h, live) ops"
proof (induction ops arbitrary: h live)
  case Nil
  show ?case by simp
next
  case (Cons op ops)
  note e = heap_step_eq [OF Cons.prems, of op]
  show ?case
  proof (cases "heap_step_exact (h, live) op")
    case None
    with e show ?thesis by simp
  next
    case (Some s)
    obtain h1 l1 where s: "s = (h1, l1)" by (cases s)
    from heap_inv_step [OF Cons.prems(1) Some [unfolded s]] have i: "heap_inv h1 l1" .
    from heap_step_exact_sizes [OF Some [unfolded s]] Cons.prems
    have "roSize h1 < 2 ^ 53" "rwSize h1 < 2 ^ 53" by simp_all
    from Cons.IH [OF i this] e Some s show ?thesis by simp
  qed
qed

lemma Heap_create_safe:
  assumes c: "Heap_create callocResult maxLength totalSize' roSize' = Inr h" and T: "totalSize' < 2 ^ 53"
  shows "heap_inv h []" and "roSize h < 2 ^ 53" and "rwSize h < 2 ^ 53"
proof -
  define r where "r = (case roSize' of Some r \<Rightarrow> r | None \<Rightarrow> totalSize' div 2)"
  from c have f: "roOffset h = 0" "rwOffset h = 0" "roFreeList h = []" "rwFreeList h = []"
    "roSize h = r" "rwSize h = num_sub totalSize' r" "0 \<le> r" "0 \<le> num_sub totalSize' r"
    by (auto simp: Heap_create_def Let_def r_def split: if_splits call_result.splits)
  have d: "0 \<le> totalSize' - r"
  proof (rule ccontr)
    assume "\<not> 0 \<le> totalSize' - r"
    then have "totalSize' - r < 0" by simp
    from toDouble_neg [OF this] f(8) show False by (simp add: num_sub_def)
  qed
  with f(7) T have "\<bar>totalSize' - r\<bar> < 2 ^ 53" by linarith
  then have e: "num_sub totalSize' r = totalSize' - r" by (rule num_sub_exact)
  from f e d T show "roSize h < 2 ^ 53" "rwSize h < 2 ^ 53" by simp_all
  from f show "heap_inv h []" by (simp add: heap_inv_def zone_ok_def ro_live_def rw_live_def)
qed

lemma heap_run_exact_sizes:
  "heap_run_exact (h, live) ops = Some (h', live') \<Longrightarrow> roSize h' = roSize h \<and> rwSize h' = rwSize h"
proof (induction ops arbitrary: h live)
  case Nil
  then show ?case by simp
next
  case (Cons op ops)
  from Cons.prems obtain s where s: "heap_step_exact (h, live) op = Some s"
    and r: "heap_run_exact s ops = Some (h', live')"
    by (auto split: option.splits)
  obtain h1 l1 where s1: "s = (h1, l1)" by (cases s)
  from heap_step_exact_sizes [OF s [unfolded s1]] Cons.IH [OF r [unfolded s1]] show ?case by simp
qed

lemma fl_bounded_no_adjacent:
  assumes ok: "fl_ok fl" and b: "fl_bounded M fl" and M: "M < 2 ^ 53"
  shows "\<forall>a\<in>set fl. \<forall>b\<in>set fl. num_add (offset a) (size_fb a) \<noteq> offset b"
proof (intro ballI)
  fix x y assume x: "x \<in> set fl" and y: "y \<in> set fl"
  from b x M have "\<bar>offset x + size_fb x\<bar> < 2 ^ 53" unfolding fl_bounded_def by force
  then have "num_add (offset x) (size_fb x) = offset x + size_fb x" by (rule num_add_exact)
  with fl_ok_sorted_no_adjacent(2) [OF ok] x y show "num_add (offset x) (size_fb x) \<noteq> offset y"
    by simp
qed

text \<open>
  Claim C8 (free-list coalescing invariant), as amended. Start from a heap that
  \<open>Heap.create\<close> returns for a total size below \<open>2^53\<close> (sizes are integers) and run any
  sequence of \<open>alloc\<close>, \<open>allocReadonly\<close> and \<open>free\<close> in which every freed block is one that
  this heap returned and that has not been freed since (\<open>heap_run\<close> is \<open>Some\<close>). Then the
  free list of each zone is strictly sorted by offset and holds no two entries
  \<open>(o1, s1)\<close>, \<open>(o2, s2)\<close> with \<open>o1 + s1 = o2\<close>, be the sum exact or the one of the code.
\<close>

theorem heap_free_lists_coalesced:
  assumes "Heap_create callocResult maxLength totalSize' roSize' = Inr h0"
    and "totalSize' < 2 ^ 53"
    and "heap_run (h0, []) ops = Some (h, live)"
  shows "sorted_wrt (\<lambda>a b. offset a < offset b) (roFreeList h)
       \<and> (\<forall>a\<in>set (roFreeList h). \<forall>b\<in>set (roFreeList h). offset a + size_fb a \<noteq> offset b)
       \<and> (\<forall>a\<in>set (roFreeList h). \<forall>b\<in>set (roFreeList h). num_add (offset a) (size_fb a) \<noteq> offset b)
       \<and> sorted_wrt (\<lambda>a b. offset a < offset b) (rwFreeList h)
       \<and> (\<forall>a\<in>set (rwFreeList h). \<forall>b\<in>set (rwFreeList h). offset a + size_fb a \<noteq> offset b)
       \<and> (\<forall>a\<in>set (rwFreeList h). \<forall>b\<in>set (rwFreeList h). num_add (offset a) (size_fb a) \<noteq> offset b)"
proof -
  note c = Heap_create_safe [OF assms(1,2)]
  from heap_run_eq [OF c] assms(3) have r: "heap_run_exact (h0, []) ops = Some (h, live)" by simp
  from heap_inv_run [OF c(1) r] have inv: "heap_inv h live" .
  from heap_run_exact_sizes [OF r] c have lim: "roSize h < 2 ^ 53" "rwSize h < 2 ^ 53" by simp_all
  from inv have zro: "zone_ok (base h) (roOffset h) (roFreeList h) (ro_live h live)"
    and zrw: "zone_ok (base h + roSize h) (rwOffset h) (rwFreeList h) (rw_live h live)"
    and le: "roOffset h \<le> roSize h" "rwOffset h \<le> rwSize h"
    by (simp_all add: heap_inv_def)
  from zro zrw have ok: "fl_ok (roFreeList h)" "fl_ok (rwFreeList h)" by (simp_all add: zone_ok_def)
  from le lim have M: "roOffset h < 2 ^ 53" "rwOffset h < 2 ^ 53" by linarith+
  note n1 = fl_bounded_no_adjacent [OF ok(1) zone_ok_bounded [OF zro] M(1)]
  note n2 = fl_bounded_no_adjacent [OF ok(2) zone_ok_bounded [OF zrw] M(2)]
  from fl_ok_sorted_no_adjacent [OF ok(1)] fl_ok_sorted_no_adjacent [OF ok(2)] n1 n2
  show ?thesis by blast
qed

lemmas heap_eval =
  Heap_create_def alloc_def allocReadonly_def free_def findFreeBlock_def findFreeBlock_from.simps
  splitFreeBlock_def insertAndCoalesce_def findInsertIdx.simps mergeNext_def mergePrev_def
  splice_insert_def splice_remove_def num_add_def num_sub_def toDouble_def round53_def
  bitlen.simps Let_def

text \<open>
  A run on a 16-byte heap: three readonly blocks are freed out of order, coalesce into
  one block together, and the next allocation splits it.
\<close>

theorem heap_free_lists_coalesced_witness:
  "Heap_create (Returned 1000) 4294967296 16 (Some 8) = Inr
           \<lparr>base = 1000, totalSize = 16, roSize = 8, rwSize = 8,
              romem = \<lparr>remote = 1000, local = replicate 8 0\<rparr>,
              roOffset = 0, rwOffset = 0, roFreeList = [], rwFreeList = []\<rparr>
     \<and> heap_run (\<lparr>base = 1000, totalSize = 16, roSize = 8, rwSize = 8,
              romem = \<lparr>remote = 1000, local = replicate 8 0\<rparr>,
              roOffset = 0, rwOffset = 0, roFreeList = [], rwFreeList = []\<rparr>, [])
         [OpAllocReadonly 2, OpAllocReadonly 2, OpAllocReadonly 2, OpAlloc 3,
          OpFree \<lparr>remote_ha = 1000, size_ha = 2\<rparr>, OpFree \<lparr>remote_ha = 1004, size_ha = 2\<rparr>,
          OpFree \<lparr>remote_ha = 1002, size_ha = 2\<rparr>, OpAllocReadonly 1]
       = Some (\<lparr>base = 1000, totalSize = 16, roSize = 8, rwSize = 8,
              romem = \<lparr>remote = 1000, local = replicate 8 0\<rparr>,
              roOffset = 6, rwOffset = 3, roFreeList = [\<lparr>offset = 1, size_fb = 5\<rparr>], rwFreeList = []\<rparr>,
               [\<lparr>remote_ha = 1000, size_ha = 1\<rparr>, \<lparr>remote_ha = 1008, size_ha = 3\<rparr>])
     \<and> sorted_wrt (\<lambda>a b. offset a < offset b) [\<lparr>offset = 1, size_fb = 5\<rparr>]
     \<and> sorted_wrt (\<lambda>a b. offset a < offset b) ([] :: FreeBlock list)"
proof -
  have c: "Heap_create (Returned 1000) 4294967296 16 (Some 8) = Inr
           \<lparr>base = 1000, totalSize = 16, roSize = 8, rwSize = 8,
              romem = \<lparr>remote = 1000, local = replicate 8 0\<rparr>,
              roOffset = 0, rwOffset = 0, roFreeList = [], rwFreeList = []\<rparr>"
    by (simp add: heap_eval)
  have r: "heap_run (\<lparr>base = 1000, totalSize = 16, roSize = 8, rwSize = 8,
              romem = \<lparr>remote = 1000, local = replicate 8 0\<rparr>,
              roOffset = 0, rwOffset = 0, roFreeList = [], rwFreeList = []\<rparr>, [])
         [OpAllocReadonly 2, OpAllocReadonly 2, OpAllocReadonly 2, OpAlloc 3,
          OpFree \<lparr>remote_ha = 1000, size_ha = 2\<rparr>, OpFree \<lparr>remote_ha = 1004, size_ha = 2\<rparr>,
          OpFree \<lparr>remote_ha = 1002, size_ha = 2\<rparr>, OpAllocReadonly 1]
       = Some (\<lparr>base = 1000, totalSize = 16, roSize = 8, rwSize = 8,
              romem = \<lparr>remote = 1000, local = replicate 8 0\<rparr>,
              roOffset = 6, rwOffset = 3, roFreeList = [\<lparr>offset = 1, size_fb = 5\<rparr>], rwFreeList = []\<rparr>,
               [\<lparr>remote_ha = 1000, size_ha = 1\<rparr>, \<lparr>remote_ha = 1008, size_ha = 3\<rparr>])"
    by (simp add: heap_eval)
  have t: "(16 :: int) < 2 ^ 53" by simp
  from heap_free_lists_coalesced [OF c t r] c r show ?thesis by simp
qed

text \<open>
  Claim C8 as stated, for every heap, fails above \<open>2^53\<close>. On a heap of \<open>2^53 + 4\<close> bytes
  with an empty readonly zone, after \<open>alloc(2^53)\<close> the bump offset is \<open>2^53\<close>; \<open>alloc(1)\<close>
  adds 1 to it, which rounds back to \<open>2^53\<close>, so \<open>alloc(2)\<close> returns the address that
  \<open>alloc(1)\<close> returned. Freeing both blocks leaves two entries at offset \<open>2^53\<close>, of
  sizes 2 and 1, in the free list: it is not strictly sorted, the two blocks overlap,
  and for the entry of size 1 the sum \<open>o1 + s1\<close> of the code equals the offset of the
  other entry.
\<close>

theorem heap_free_list_rounding_counterexample:
  "Heap_create (Returned 1000) 4294967296 9007199254740996 (Some 0) = Inr
           \<lparr>base = 1000, totalSize = 9007199254740996, roSize = 0, rwSize = 9007199254740996,
              romem = \<lparr>remote = 1000, local = []\<rparr>,
              roOffset = 0, rwOffset = 0, roFreeList = [], rwFreeList = []\<rparr>
     \<and> heap_run (\<lparr>base = 1000, totalSize = 9007199254740996, roSize = 0, rwSize = 9007199254740996,
              romem = \<lparr>remote = 1000, local = []\<rparr>,
              roOffset = 0, rwOffset = 0, roFreeList = [], rwFreeList = []\<rparr>, [])
         [OpAlloc 9007199254740992, OpAlloc 1, OpAlloc 2,
          OpFree \<lparr>remote_ha = 9007199254741992, size_ha = 1\<rparr>,
          OpFree \<lparr>remote_ha = 9007199254741992, size_ha = 2\<rparr>]
       = Some (\<lparr>base = 1000, totalSize = 9007199254740996, roSize = 0, rwSize = 9007199254740996,
              romem = \<lparr>remote = 1000, local = []\<rparr>,
              roOffset = 0, rwOffset = 9007199254740994, roFreeList = [],
              rwFreeList = [\<lparr>offset = 9007199254740992, size_fb = 2\<rparr>,
                            \<lparr>offset = 9007199254740992, size_fb = 1\<rparr>]\<rparr>,
               [\<lparr>remote_ha = 1000, size_ha = 9007199254740992\<rparr>])
     \<and> num_add 9007199254740992 1 = 9007199254740992"
  by (simp add: heap_eval)

section \<open>Gadget pools (globals.ts)\<close>

datatype GeneralPurposeRegs =
  Rax | Rcx | Rdx | Rbx | Rsp | Rbp | Rsi | Rdi | R8 | R9 | R10 | R11 | R12 | R13 | R14 | R15

definition leastClobberedRegs :: "GeneralPurposeRegs list" where
  "leastClobberedRegs = [Rbx, Rbp, Rdi, Rsi]"

text \<open>
  The module state: the pool of sleep addresses, the \<open>Map\<close> from an address to its
  \<open>push reg; ret\<close> gadget, and the flag of the one-time scan. A JavaScript \<open>Map\<close> iterates
  in insertion order and \<open>set\<close> on a present key replaces the value in place, hence an
  association list with \<open>map_set\<close>.
\<close>

record PushretEntry =
  pointer :: int
  regKey :: GeneralPurposeRegs

record Globals =
  sleepAddresses :: "int list"
  pushretAddresses :: "(int \<times> PushretEntry) list"
  isAutoDiscovered :: bool

fun map_set :: "('k \<times> 'v) list \<Rightarrow> 'k \<Rightarrow> 'v \<Rightarrow> ('k \<times> 'v) list" where
  "map_set [] k v = [(k, v)]"
| "map_set ((k', v') # m) k v = (if k' = k then (k, v) # m else (k', v') # map_set m k v)"

definition registerSleepAddress :: "Globals \<Rightarrow> int \<Rightarrow> Globals" where
  "registerSleepAddress g address = g\<lparr>sleepAddresses := sleepAddresses g @ [address]\<rparr>"

definition registerPushretAddress :: "Globals \<Rightarrow> int \<Rightarrow> GeneralPurposeRegs \<Rightarrow> Globals" where
  "registerPushretAddress g address r =
     g\<lparr>pushretAddresses :=
         map_set (pushretAddresses g) address \<lparr>pointer = address, regKey = r\<rparr>\<rparr>"

text \<open>
  \<open>autoDiscoverAddresses\<close>: what the pattern scans of the loaded modules find is a
  parameter, \<open>sleepScan\<close> for \<open>jmp .\<close> and \<open>pushretScan r\<close> for \<open>push r; ret\<close>.
\<close>

definition autoDiscoverAddresses ::
  "int list \<Rightarrow> (GeneralPurposeRegs \<Rightarrow> int list) \<Rightarrow> Globals \<Rightarrow> Globals" where
  "autoDiscoverAddresses sleepScan pushretScan g =
     (if isAutoDiscovered g then g
      else let g1 = fold (\<lambda>m g'. registerSleepAddress g' m) sleepScan g;
               g2 = fold (\<lambda>r g'. fold (\<lambda>m g''. registerPushretAddress g'' m r) (pushretScan r) g')
                      leastClobberedRegs g1
           in g2\<lparr>isAutoDiscovered := True\<rparr>)"

text \<open>
  \<open>Math.floor(Math.random() * n)\<close> is a parameter: \<open>randomIndex n\<close> is the index that the
  draw of \<open>Math.random()\<close> of this call gives for a list of \<open>n\<close> entries. The product and
  the floor are computed by JavaScript on doubles, and nothing is assumed of them here:
  an index that is not in the list makes \<open>selected\<close> undefined.
\<close>

definition getRandomSleepAddress ::
  "int list \<Rightarrow> (GeneralPurposeRegs \<Rightarrow> int list) \<Rightarrow> (nat \<Rightarrow> nat) \<Rightarrow> Globals \<Rightarrow> int option \<times> Globals" where
  "getRandomSleepAddress sleepScan pushretScan randomIndex g =
     (let g1 = (if length (sleepAddresses g) = 0
                then autoDiscoverAddresses sleepScan pushretScan g else g)
      in if length (sleepAddresses g1) = 0 then (None, g1)
         else (nth_opt (sleepAddresses g1) (randomIndex (length (sleepAddresses g1))), g1))"




subsection \<open>The selection policy\<close>










section \<open>Calls on a captured thread (src/thread/captured-thread.ts, src/nthread.ts)\<close>

text \<open>
  A thread context is read and written by key (\<open>ctx.Rcx\<close>, \<open>ctx[this.regKey]\<close>): a map
  from the keys to the \<open>bigint\<close> register values. Only the general purpose registers
  and \<open>Rip\<close> are modelled. The narrowing of a \<open>bigint\<close> to the 64-bit field happens inside
  the native binding and is not modelled.
\<close>

datatype ctx_key = Reg GeneralPurposeRegs | Rip

type_synonym ThreadContext = "ctx_key \<Rightarrow> int"

text \<open>
  The operating system side of \<open>Native.Thread\<close>. Every native call is logged as an event;
  what the \<open>n\<close>-th native call answers is a parameter, \<open>None\<close> when the call throws.
\<close>

datatype hw_event = EvSuspend | EvGetContext | EvSetContext ThreadContext | EvResume | EvWait

record NativeThread =
  hw_suspend :: "nat \<Rightarrow> int option"
  hw_getContext :: "nat \<Rightarrow> ThreadContext option"
  hw_setContext :: "nat \<Rightarrow> bool"
  hw_resume :: "nat \<Rightarrow> int option"
  hw_wait :: "nat \<Rightarrow> WaitReturn option"

record CapturedThread =
  suspendCount :: int
  latestContext :: "ThreadContext option"
  callRsp :: int
  sleepAddress :: int

type_synonym tstate = "CapturedThread \<times> hw_event list"

text \<open>Sequencing of steps that may throw: the first exception ends the run.\<close>

definition bind_js ::
  "(NThreadError + 'a) \<times> 's \<Rightarrow> ('a \<Rightarrow> 's \<Rightarrow> (NThreadError + 'b) \<times> 's) \<Rightarrow> (NThreadError + 'b) \<times> 's" where
  "bind_js m f = (case m of (Inl e, s) \<Rightarrow> (Inl e, s) | (Inr a, s) \<Rightarrow> f a s)"

definition suspend :: "NativeThread \<Rightarrow> tstate \<Rightarrow> (NThreadError + int) \<times> tstate" where
  "suspend hw s = (case s of (t, tr) \<Rightarrow>
     (case hw_suspend hw (length tr) of
        None \<Rightarrow> (Inl NativeError, (t, tr @ [EvSuspend]))
      | Some result \<Rightarrow>
          (Inr result, (if result \<noteq> 0 then t\<lparr>suspendCount := suspendCount t + 1\<rparr> else t,
                        tr @ [EvSuspend]))))"

definition resume :: "NativeThread \<Rightarrow> tstate \<Rightarrow> (NThreadError + int) \<times> tstate" where
  "resume hw s = (case s of (t, tr) \<Rightarrow>
     (case hw_resume hw (length tr) of
        None \<Rightarrow> (Inl NativeError, (t, tr @ [EvResume]))
      | Some result \<Rightarrow>
          (Inr result, (if result \<noteq> 0 then t\<lparr>suspendCount := suspendCount t - 1\<rparr> else t,
                        tr @ [EvResume]))))"

definition fetchContext :: "NativeThread \<Rightarrow> tstate \<Rightarrow> (NThreadError + unit) \<times> tstate" where
  "fetchContext hw s = (case s of (t, tr) \<Rightarrow>
     (case hw_getContext hw (length tr) of
        None \<Rightarrow> (Inl NativeError, (t, tr @ [EvGetContext]))
      | Some c \<Rightarrow> (Inr (), (t\<lparr>latestContext := Some c\<rparr>, tr @ [EvGetContext]))))"

definition getContext :: "NativeThread \<Rightarrow> tstate \<Rightarrow> (NThreadError + ThreadContext) \<times> tstate" where
  "getContext hw s =
     (case latestContext (fst s) of
        Some c \<Rightarrow> (Inr c, s)
      | None \<Rightarrow>
          bind_js (fetchContext hw s) (\<lambda>_ s'.
            (case latestContext (fst s') of Some c \<Rightarrow> (Inr c, s') | None \<Rightarrow> (Inl NativeError, s'))))"

definition setContext :: "ThreadContext \<Rightarrow> tstate \<Rightarrow> tstate" where
  "setContext ctx s = (case s of (t, tr) \<Rightarrow> (t\<lparr>latestContext := Some ctx\<rparr>, tr))"

definition applyContext :: "NativeThread \<Rightarrow> tstate \<Rightarrow> (NThreadError + unit) \<times> tstate" where
  "applyContext hw s = (case s of (t, tr) \<Rightarrow>
     (case latestContext t of
        None \<Rightarrow> (Inl NativeError, s)
      | Some c \<Rightarrow>
          (if hw_setContext hw (length tr) then (Inr (), (t, tr @ [EvSetContext c]))
           else (Inl NativeError, (t, tr @ [EvSetContext c])))))"

text \<open>
  \<open>CapturedThread.wait\<close>: one poll per millisecond of \<open>timeoutMs\<close>. A poll reads the
  context; when reading throws, the outcome is that of the native \<open>wait(0)\<close>, with
  \<open>OBJECT_0\<close> (the thread has ended) reported as \<open>FAILED\<close>. The counter is a number:
  \<open>count++\<close> is a rounded sum, which no longer grows at \<open>2^53\<close>, so the loop need not end
  for a larger \<open>timeoutMs\<close>. \<open>fuel\<close> bounds the number of times the loop condition is
  evaluated, and \<open>None\<close> means that the loop has not ended within it. \<open>timeoutMs\<close> is an
  integer here. \<open>sleepAddress.valueOf()\<close> is taken to be the address.
\<close>

definition poll :: "NativeThread \<Rightarrow> tstate \<Rightarrow> (NThreadError + ThreadContext) \<times> tstate" where
  "poll hw s = bind_js (fetchContext hw s) (\<lambda>_ s1. getContext hw s1)"

fun wait ::
  "nat \<Rightarrow> NativeThread \<Rightarrow> int \<Rightarrow> int \<Rightarrow> tstate \<Rightarrow> ((NThreadError + WaitReturn) \<times> tstate) option" where
  "wait 0 hw timeoutMs count s = None"
| "wait (Suc fuel) hw timeoutMs count s =
     (if count < timeoutMs
      then (case poll hw s of
              (Inr c, s1) \<Rightarrow>
                if c Rip = sleepAddress (fst s1) then Some (Inr OBJECT_0, s1)
                else wait fuel hw timeoutMs (num_add count 1) s1
            | (Inl _, s1) \<Rightarrow>
                (case hw_wait hw (length (snd s1)) of
                   None \<Rightarrow> Some (Inl NativeError, (fst s1, snd s1 @ [EvWait]))
                 | Some res \<Rightarrow>
                     Some (Inr (if res = OBJECT_0 then FAILED else res), (fst s1, snd s1 @ [EvWait]))))
      else Some (Inr TIMEOUT, s))"

text \<open>
  An argument of a call is a \<open>bigint\<close>, a \<open>number\<close> or a \<open>NativePointer\<close>. A number is a
  rational or one of \<open>NaN\<close>, \<open>Infinity\<close>, \<open>-Infinity\<close>; \<open>BigInt\<close> accepts only an integer.
\<close>

datatype number = Finite rat | NonFinite

datatype Arg = ArgBigInt int | ArgNumber number | ArgPointer int

datatype Target = TargetPointer int | TargetBigInt int

definition BigInt_number :: "number \<Rightarrow> NThreadError + int" where
  "BigInt_number v =
     (case v of
        Finite q \<Rightarrow> if of_int \<lfloor>q\<rfloor> = q then Inr \<lfloor>q\<rfloor> else Inl RangeError
      | NonFinite \<Rightarrow> Inl RangeError)"

definition toBigInt :: "Arg \<Rightarrow> NThreadError + int" where
  "toBigInt v =
     (case v of ArgPointer a \<Rightarrow> Inr a | ArgBigInt b \<Rightarrow> Inr b | ArgNumber n \<Rightarrow> BigInt_number n)"

definition targetAddr_of :: "Target \<Rightarrow> int" where
  "targetAddr_of target = (case target of TargetPointer a \<Rightarrow> a | TargetBigInt b \<Rightarrow> b)"

text \<open>
  \<open>ctx.Rcx = toBigInt(args[0])\<close> and the like: \<open>ctx\<close> is the cached context object of
  the thread itself, so the assignment changes \<open>latestContext\<close> at once.
\<close>

definition assignCtx :: "ctx_key \<Rightarrow> int \<Rightarrow> tstate \<Rightarrow> tstate" where
  "assignCtx k v s = (case s of (t, tr) \<Rightarrow>
     (t\<lparr>latestContext := map_option (\<lambda>c. c(k := v)) (latestContext t)\<rparr>, tr))"

definition setArg :: "Arg list \<Rightarrow> nat \<Rightarrow> ctx_key \<Rightarrow> tstate \<Rightarrow> (NThreadError + unit) \<times> tstate" where
  "setArg args i k s =
     (if length args > i
      then (case toBigInt (args ! i) of
              Inl e \<Rightarrow> (Inl e, s)
            | Inr v \<Rightarrow> (Inr (), assignCtx k v s))
      else (Inr (), s))"

text \<open>Step 2 of \<open>threadCall\<close>: the arguments go to \<open>Rcx\<close>, \<open>Rdx\<close>, \<open>R8\<close>, \<open>R9\<close> in order.\<close>

definition mapArgs :: "Arg list \<Rightarrow> tstate \<Rightarrow> (NThreadError + unit) \<times> tstate" where
  "mapArgs args s =
     bind_js (setArg args 0 (Reg Rcx) s) (\<lambda>_ s.
     bind_js (setArg args 1 (Reg Rdx) s) (\<lambda>_ s.
     bind_js (setArg args 2 (Reg R8) s) (\<lambda>_ s.
     setArg args 3 (Reg R9) s)))"

text \<open>
  Steps 1 to 5 of \<open>threadCall\<close>, up to the \<open>resume\<close> that lets the call run.
  \<open>this_sleepAddress\<close> is the sleep address of the \<open>NThread\<close>, the one of the thread is in
  its record. \<open>thread.setContext(ctx)\<close> stores the context object that \<open>latestContext\<close>
  holds already, with the assignments made to it.
\<close>

definition dispatch ::
  "int \<Rightarrow> NativeThread \<Rightarrow> int \<Rightarrow> Arg list \<Rightarrow> tstate \<Rightarrow> (NThreadError + unit) \<times> tstate" where
  "dispatch this_sleepAddress hw targetAddr args s =
     bind_js (suspend hw s) (\<lambda>_ s.
     bind_js (fetchContext hw s) (\<lambda>_ s.
     bind_js (getContext hw s) (\<lambda>c s.
       let currentRip = c Rip in
       if currentRip \<noteq> this_sleepAddress
       then bind_js (resume hw s) (\<lambda>_ s.
              (Inl (CallRipMismatchError targetAddr currentRip this_sleepAddress), s))
       else
         bind_js (getContext hw s) (\<lambda>_ s.
         bind_js (mapArgs args s) (\<lambda>_ s.
           let s = assignCtx Rip targetAddr s;
               s = assignCtx (Reg Rsp) (callRsp (fst s)) s
           in
         bind_js (getContext hw s) (\<lambda>ctx s.
           let s = setContext ctx s in
         bind_js (applyContext hw s) (\<lambda>_ s.
         bind_js (resume hw s) (\<lambda>_ s. (Inr (), s)))))))))"

text \<open>Steps 6 and 7: wait for the return to the sleep address and read \<open>Rax\<close>.\<close>

definition awaitReturn ::
  "nat \<Rightarrow> NativeThread \<Rightarrow> int \<Rightarrow> int \<Rightarrow> tstate \<Rightarrow> ((NThreadError + int) \<times> tstate) option" where
  "awaitReturn fuel hw targetAddr timeoutMs s =
     (case wait fuel hw timeoutMs 0 s of
        None \<Rightarrow> None
      | Some (Inl e, s) \<Rightarrow> Some (Inl e, s)
      | Some (Inr res, s) \<Rightarrow>
          Some (if res = FAILED then (Inl (CallThreadDiedError targetAddr), s)
                else if res \<noteq> OBJECT_0 then (Inl (CallTimeoutError targetAddr res), s)
                else bind_js (getContext hw s) (\<lambda>c s. (Inr (c (Reg Rax)), s))))"

definition threadCall ::
  "nat \<Rightarrow> int \<Rightarrow> NativeThread \<Rightarrow> Target \<Rightarrow> Arg list \<Rightarrow> int \<Rightarrow> tstate
     \<Rightarrow> ((NThreadError + int) \<times> tstate) option" where
  "threadCall fuel this_sleepAddress hw target args timeoutMs s =
     (if length args > 4 then Some (Inl (CallTooManyArgsError (length args)), s)
      else let targetAddr = targetAddr_of target in
        (case dispatch this_sleepAddress hw targetAddr args s of
           (Inl e, s) \<Rightarrow> Some (Inl e, s)
         | (Inr _, s) \<Rightarrow> awaitReturn fuel hw targetAddr timeoutMs s))"

subsection \<open>What a call does\<close>







lemma poll_eq:
  "poll hw (t, tr) =
     (case hw_getContext hw (length tr) of
        None \<Rightarrow> (Inl NativeError, (t, tr @ [EvGetContext]))
      | Some c \<Rightarrow> (Inr c, (t\<lparr>latestContext := Some c\<rparr>, tr @ [EvGetContext])))"
  by (simp add: poll_def fetchContext_def getContext_def bind_js_def split: option.splits)


definition counted :: "int \<Rightarrow> int \<Rightarrow> CapturedThread \<Rightarrow> CapturedThread" where
  "counted result d t = (if result \<noteq> 0 then t\<lparr>suspendCount := suspendCount t + d\<rparr> else t)"

lemma counted_fields [simp]:
  "latestContext (counted r d t) = latestContext t"
  "callRsp (counted r d t) = callRsp t"
  "sleepAddress (counted r d t) = sleepAddress t"
  by (simp_all add: counted_def)

lemma suspend_eq:
  "suspend hw (t, tr) =
     (case hw_suspend hw (length tr) of
        None \<Rightarrow> (Inl NativeError, (t, tr @ [EvSuspend]))
      | Some r \<Rightarrow> (Inr r, (counted r 1 t, tr @ [EvSuspend])))"
  by (simp add: suspend_def counted_def split: option.splits)

lemma resume_eq:
  "resume hw (t, tr) =
     (case hw_resume hw (length tr) of
        None \<Rightarrow> (Inl NativeError, (t, tr @ [EvResume]))
      | Some r \<Rightarrow> (Inr r, (counted r (- 1) t, tr @ [EvResume])))"
  by (simp add: resume_def counted_def split: option.splits)

lemma dispatch_prefix:
  assumes su: "hw_suspend hw (length tr) = Some r1"
    and gc: "hw_getContext hw (Suc (length tr)) = Some c0"
  shows "dispatch sa hw ta args (t, tr) =
     (let s = ((counted r1 1 t)\<lparr>latestContext := Some c0\<rparr>, tr @ [EvSuspend, EvGetContext]) in
      if c0 Rip \<noteq> sa
      then bind_js (resume hw s) (\<lambda>_ s. (Inl (CallRipMismatchError ta (c0 Rip) sa), s))
      else
        bind_js (mapArgs args s) (\<lambda>_ s.
          let s = assignCtx Rip ta s;
              s = assignCtx (Reg Rsp) (callRsp (fst s)) s
          in
        bind_js (getContext hw s) (\<lambda>ctx s.
          let s = setContext ctx s in
        bind_js (applyContext hw s) (\<lambda>_ s.
        bind_js (resume hw s) (\<lambda>_ s. (Inr (), s))))))"
  unfolding dispatch_def
  by (simp add: suspend_eq su fetchContext_def gc getContext_def bind_js_def Let_def)


lemma dispatch_mismatch:
  assumes su: "hw_suspend hw (length tr) = Some r1"
    and gc: "hw_getContext hw (Suc (length tr)) = Some c0"
    and rip: "c0 Rip \<noteq> sa"
    and re: "hw_resume hw (Suc (Suc (length tr))) = Some r2"
  shows "dispatch sa hw ta args (t, tr) =
     (Inl (CallRipMismatchError ta (c0 Rip) sa),
      (counted r2 (- 1) ((counted r1 1 t)\<lparr>latestContext := Some c0\<rparr>),
       tr @ [EvSuspend, EvGetContext, EvResume]))"
  unfolding dispatch_prefix [OF su gc] Let_def
  by (simp add: rip bind_js_def resume_eq re)




lemmas call_eval =
  threadCall_def dispatch_def awaitReturn_def poll_def suspend_def resume_def
  fetchContext_def getContext_def setContext_def applyContext_def bind_js_def mapArgs_def
  setArg_def assignCtx_def toBigInt_def BigInt_number_def targetAddr_of_def num_add_def
  toDouble_def round53_def Let_def


text \<open>
  Claim C4. A \<open>threadCall\<close> with more than four arguments fails with
  \<open>CallTooManyArgsError\<close> and makes no native call: the state, with its log of native
  calls, is unchanged. With at most four arguments, when the suspension and the reading of
  the context succeed and the \<open>Rip\<close> read is not the sleep address, the thread is resumed
  and the call fails with \<open>CallRipMismatchError\<close> (given that the native resume returns):
  the native calls are suspend, read the context, resume, no context is written, and the
  cached context is the one read. After a dispatch, when \<open>wait\<close> returns \<open>FAILED\<close> the call
  fails with \<open>CallThreadDiedError\<close>, and when it returns another outcome that is not
  \<open>OBJECT_0\<close> the call fails with \<open>CallTimeoutError\<close> carrying that outcome. \<open>wait\<close>
  reports \<open>FAILED\<close> when reading the context throws and the native \<open>wait(0)\<close> answers that
  the thread has ended.
\<close>

theorem threadCall_error_paths:
  "(length args > 4 \<longrightarrow>
      threadCall fuel sa hw target args timeoutMs s = Some (Inl (CallTooManyArgsError (length args)), s))
   \<and> (length args \<le> 4 \<and> hw_suspend hw (length tr) = Some rs
        \<and> hw_getContext hw (Suc (length tr)) = Some cf \<and> cf Rip \<noteq> sa
        \<and> hw_resume hw (Suc (Suc (length tr))) = Some rr \<longrightarrow>
      threadCall fuel sa hw target args timeoutMs (t, tr) =
        Some (Inl (CallRipMismatchError (targetAddr_of target) (cf Rip) sa),
              (counted rr (- 1) ((counted rs 1 t)\<lparr>latestContext := Some cf\<rparr>),
               tr @ [EvSuspend, EvGetContext, EvResume])))
   \<and> (length args \<le> 4
        \<and> dispatch sa hw (targetAddr_of target) args (t, tr) = (Inr (), sd)
        \<and> wait fuel hw timeoutMs 0 sd = Some (Inr res, s') \<and> res \<noteq> OBJECT_0 \<longrightarrow>
      threadCall fuel sa hw target args timeoutMs (t, tr) =
        Some (Inl (if res = FAILED then CallThreadDiedError (targetAddr_of target)
                   else CallTimeoutError (targetAddr_of target) res), s'))
   \<and> (\<forall>fuel' count. hw_getContext hw (length tr) = None \<and> hw_wait hw (Suc (length tr)) = Some OBJECT_0
        \<and> count < timeoutMs \<longrightarrow>
      wait (Suc fuel') hw timeoutMs count (t, tr) = Some (Inr FAILED, (t, tr @ [EvGetContext, EvWait])))"
proof -
  have 1: "length args > 4 \<longrightarrow>
      threadCall fuel sa hw target args timeoutMs s = Some (Inl (CallTooManyArgsError (length args)), s)"
    by (simp add: threadCall_def)
  have 2: "length args \<le> 4 \<and> hw_suspend hw (length tr) = Some rs
        \<and> hw_getContext hw (Suc (length tr)) = Some cf \<and> cf Rip \<noteq> sa
        \<and> hw_resume hw (Suc (Suc (length tr))) = Some rr \<longrightarrow>
      threadCall fuel sa hw target args timeoutMs (t, tr) =
        Some (Inl (CallRipMismatchError (targetAddr_of target) (cf Rip) sa),
              (counted rr (- 1) ((counted rs 1 t)\<lparr>latestContext := Some cf\<rparr>),
               tr @ [EvSuspend, EvGetContext, EvResume]))"
  proof
    assume a: "length args \<le> 4 \<and> hw_suspend hw (length tr) = Some rs
        \<and> hw_getContext hw (Suc (length tr)) = Some cf \<and> cf Rip \<noteq> sa
        \<and> hw_resume hw (Suc (Suc (length tr))) = Some rr"
    then have su: "hw_suspend hw (length tr) = Some rs"
      and gc: "hw_getContext hw (Suc (length tr)) = Some cf" and rip: "cf Rip \<noteq> sa"
      and re: "hw_resume hw (Suc (Suc (length tr))) = Some rr" and len: "length args \<le> 4"
      by simp_all
    from len show "threadCall fuel sa hw target args timeoutMs (t, tr) =
        Some (Inl (CallRipMismatchError (targetAddr_of target) (cf Rip) sa),
              (counted rr (- 1) ((counted rs 1 t)\<lparr>latestContext := Some cf\<rparr>),
               tr @ [EvSuspend, EvGetContext, EvResume]))"
      by (simp add: threadCall_def Let_def dispatch_mismatch [OF su gc rip re])
  qed
  have 3: "length args \<le> 4
        \<and> dispatch sa hw (targetAddr_of target) args (t, tr) = (Inr (), sd)
        \<and> wait fuel hw timeoutMs 0 sd = Some (Inr res, s') \<and> res \<noteq> OBJECT_0 \<longrightarrow>
      threadCall fuel sa hw target args timeoutMs (t, tr) =
        Some (Inl (if res = FAILED then CallThreadDiedError (targetAddr_of target)
                   else CallTimeoutError (targetAddr_of target) res), s')"
    by (simp add: threadCall_def Let_def awaitReturn_def)
  have 4: "\<forall>fuel' count. hw_getContext hw (length tr) = None \<and> hw_wait hw (Suc (length tr)) = Some OBJECT_0
        \<and> count < timeoutMs \<longrightarrow>
      wait (Suc fuel') hw timeoutMs count (t, tr) = Some (Inr FAILED, (t, tr @ [EvGetContext, EvWait]))"
    by (simp add: poll_eq)
  from 1 2 3 4 show ?thesis by (intro conjI)
qed

text \<open>
  Five arguments; a thread found at 555 instead of the sleep address 100; a thread that
  is gone when \<open>wait\<close> polls it.
\<close>

theorem threadCall_error_paths_witness:
  "threadCall 0 100 \<lparr>hw_suspend = (\<lambda>n. Some 0),
          hw_getContext = (\<lambda>n. Some (\<lambda>k. if k = Rip then 555 else 0)),
          hw_setContext = (\<lambda>n. True), hw_resume = (\<lambda>n. Some 1), hw_wait = (\<lambda>n. Some TIMEOUT)\<rparr>
       (TargetBigInt 7000) [ArgBigInt 1, ArgBigInt 2, ArgBigInt 3, ArgBigInt 4, ArgBigInt 5] 5000
       (\<lparr>suspendCount = 0, latestContext = None, callRsp = 5000, sleepAddress = 100\<rparr>, [])
     = Some (Inl (CallTooManyArgsError 5), (\<lparr>suspendCount = 0, latestContext = None, callRsp = 5000, sleepAddress = 100\<rparr>, []))
   \<and> map_option (\<lambda>r. (fst r, suspendCount (fst (snd r)), snd (snd r)))
       (threadCall 0 100 \<lparr>hw_suspend = (\<lambda>n. Some 0),
          hw_getContext = (\<lambda>n. Some (\<lambda>k. if k = Rip then 555 else 0)),
          hw_setContext = (\<lambda>n. True), hw_resume = (\<lambda>n. Some 1), hw_wait = (\<lambda>n. Some TIMEOUT)\<rparr>
          (TargetBigInt 7000) [ArgBigInt 1] 5000
          (\<lparr>suspendCount = 0, latestContext = None, callRsp = 5000, sleepAddress = 100\<rparr>, []))
     = Some (Inl (CallRipMismatchError 7000 555 100), - 1, [EvSuspend, EvGetContext, EvResume])
   \<and> map_option fst
       (threadCall (Suc 0) 100 \<lparr>hw_suspend = (\<lambda>n. Some 0),
          hw_getContext = (\<lambda>n. if n < 4 then Some (\<lambda>k. if k = Rip then 100 else 0) else None),
          hw_setContext = (\<lambda>n. True), hw_resume = (\<lambda>n. Some 1), hw_wait = (\<lambda>n. Some OBJECT_0)\<rparr>
          (TargetBigInt 7000) [ArgBigInt 1] 5000
          (\<lparr>suspendCount = 0, latestContext = None, callRsp = 5000, sleepAddress = 100\<rparr>, []))
     = Some (Inl (CallThreadDiedError 7000))"
proof -
  let ?t = "\<lparr>suspendCount = 0, latestContext = None, callRsp = 5000, sleepAddress = 100\<rparr>"
  let ?hw2 = "\<lparr>hw_suspend = (\<lambda>n. Some 0),
          hw_getContext = (\<lambda>n. Some (\<lambda>k. if k = Rip then 555 else 0)),
          hw_setContext = (\<lambda>n. True), hw_resume = (\<lambda>n. Some 1), hw_wait = (\<lambda>n. Some TIMEOUT)\<rparr>"
  let ?hw3 = "\<lparr>hw_suspend = (\<lambda>n. Some 0),
          hw_getContext = (\<lambda>n. if n < 4 then Some (\<lambda>k. if k = Rip then 100 else 0) else None),
          hw_setContext = (\<lambda>n. True), hw_resume = (\<lambda>n. Some 1), hw_wait = (\<lambda>n. Some OBJECT_0)\<rparr>"
  have a: "threadCall 0 100 ?hw2 (TargetBigInt 7000)
      [ArgBigInt 1, ArgBigInt 2, ArgBigInt 3, ArgBigInt 4, ArgBigInt 5] 5000 (?t, [])
     = Some (Inl (CallTooManyArgsError 5), (?t, []))"
    using threadCall_error_paths [where args = "[ArgBigInt 1, ArgBigInt 2, ArgBigInt 3, ArgBigInt 4, ArgBigInt 5]"
        and fuel = 0 and sa = 100 and hw = ?hw2 and target = "TargetBigInt 7000" and timeoutMs = 5000
        and s = "(?t, [])"]
    by simp
  have b: "map_option (\<lambda>r. (fst r, suspendCount (fst (snd r)), snd (snd r)))
       (threadCall 0 100 ?hw2 (TargetBigInt 7000) [ArgBigInt 1] 5000 (?t, []))
     = Some (Inl (CallRipMismatchError 7000 555 100), - 1, [EvSuspend, EvGetContext, EvResume])"
    using threadCall_error_paths [where args = "[ArgBigInt 1]"
        and fuel = 0 and sa = 100 and hw = ?hw2 and target = "TargetBigInt 7000" and timeoutMs = 5000
        and t = ?t and tr = "[]" and rs = 0 and rr = 1 and cf = "\<lambda>k. if k = Rip then 555 else 0"]
    by (simp add: counted_def targetAddr_of_def)
  let ?sd = "snd (dispatch 100 ?hw3 (targetAddr_of (TargetBigInt 7000)) [ArgBigInt 1] (?t, []))"
  have d: "dispatch 100 ?hw3 (targetAddr_of (TargetBigInt 7000)) [ArgBigInt 1] (?t, []) = (Inr (), ?sd)"
    by (simp add: call_eval prod_eq_iff)
  have w: "wait (Suc 0) ?hw3 5000 0 ?sd = Some (Inr FAILED, snd (the (wait (Suc 0) ?hw3 5000 0 ?sd)))"
    by (simp add: call_eval)
  have c: "map_option fst
       (threadCall (Suc 0) 100 ?hw3 (TargetBigInt 7000) [ArgBigInt 1] 5000 (?t, []))
     = Some (Inl (CallThreadDiedError 7000))"
    using threadCall_error_paths [where args = "[ArgBigInt 1]"
        and fuel = "Suc 0" and sa = 100 and hw = ?hw3 and target = "TargetBigInt 7000" and timeoutMs = 5000
        and t = ?t and tr = "[]" and sd = ?sd and res = FAILED
        and s' = "snd (the (wait (Suc 0) ?hw3 5000 0 ?sd))"] d w
    by (simp add: targetAddr_of_def)
  from a b c show ?thesis by (intro conjI)
qed

section \<open>Heap-backed allocation (nthread-heap.ts)\<close>


text \<open>
  An allocation record names the heap object it came from. Heap objects are shared
  between the active heap, the previous heaps and the allocation records, and \<open>free\<close>
  changes them in place: they live in the store \<open>heaps\<close>, and a reference to a heap is
  its index there. The state is the one of a single proxy, absent until \<open>getState\<close>
  creates it.
\<close>

datatype AllocRecord = HeapBacked HeapAlloc nat | SuperBacked

record ProxyState =
  heap :: "nat option"
  prevHeaps :: "nat list"
  allocations :: "int \<rightharpoonup> AllocRecord"

text \<open>
  Modelled from the spec: the methods of \<open>ProxyThread\<close> (\<open>malloc\<close>, \<open>calloc\<close>, \<open>realloc\<close>,
  \<open>memset\<close>, \<open>call\<close>, \<open>read\<close>, \<open>write\<close>) are in-thread calls and transfers. Each one
  is logged, and what the \<open>n\<close>-th one answers (an address, or an exception) is a parameter.
\<close>

datatype proxy_event =
    CallMalloc int
  | CallCalloc int int
  | CallRealloc int int
  | CallMemset int int int
  | CallFree int
  | ProxyRead int int
  | ProxyWriteFill int int int
  | ProxyWriteData int int

record NThreadHeap =
  heapSize :: int
  maxSize :: int
  state :: "ProxyState option"
  heaps :: "Heap list"
  plog :: "proxy_event list"






definition getState :: "NThreadHeap \<Rightarrow> NThreadHeap" where
  "getState n =
     (case state n of
        Some s \<Rightarrow> n
      | None \<Rightarrow> n\<lparr>state := Some \<lparr>heap = None, prevHeaps = [], allocations = Map.empty\<rparr>\<rparr>)"

definition the_state :: "NThreadHeap \<Rightarrow> ProxyState" where
  "the_state n =
     (case state n of
        Some s \<Rightarrow> s
      | None \<Rightarrow> \<lparr>heap = None, prevHeaps = [], allocations = Map.empty\<rparr>)"












subsection \<open>The fallback to the CRT\<close>

lemma the_state_simps [simp]:
  "the_state (n\<lparr>heaps := hs\<rparr>) = the_state n"
  "the_state (n\<lparr>plog := l\<rparr>) = the_state n"
  "the_state (n\<lparr>state := Some s\<rparr>) = s"
  "the_state (getState n) = the_state n"
  by (simp_all add: the_state_def getState_def split: option.splits)












end
